theory Spec2Isabelle
  imports Complex_Main "HOL-Library.AList"
begin

section \<open>Strings as Python handles them\<close>

text \<open>
  Python strings are modelled as \<open>string\<close> (lists of characters, of which only the
  code points below 256 are represented). The helpers below are the string methods the
  crawler, the downloaders and the link validator call.
\<close>

definition startswith :: "string \<Rightarrow> string \<Rightarrow> bool" where
  "startswith s p = (take (length p) s = p)"

definition endswith :: "string \<Rightarrow> string \<Rightarrow> bool" where
  "endswith s p = (length p \<le> length s \<and> drop (length s - length p) s = p)"

text \<open>\<open>sub in s\<close>: substring test.\<close>

fun contains :: "string \<Rightarrow> string \<Rightarrow> bool" where
  "contains [] sub = (sub = [])"
| "contains (c # cs) sub = (startswith (c # cs) sub \<or> contains cs sub)"

text \<open>\<open>s.split(d)\<close> for a one-character separator: never returns the empty list.\<close>

fun split_on :: "char \<Rightarrow> string \<Rightarrow> string list" where
  "split_on d [] = [[]]"
| "split_on d (c # cs) =
     (if c = d then [] # split_on d cs
      else (case split_on d cs of
              [] \<Rightarrow> [[c]]
            | w # ws \<Rightarrow> (c # w) # ws))"

text \<open>\<open>s.strip(d)\<close>, \<open>s.rstrip(d)\<close> for a one-character set.\<close>

definition rstrip_char :: "char \<Rightarrow> string \<Rightarrow> string" where
  "rstrip_char d s = rev (dropWhile (\<lambda>c. c = d) (rev s))"

definition strip_char :: "char \<Rightarrow> string \<Rightarrow> string" where
  "strip_char d s = rstrip_char d (dropWhile (\<lambda>c. c = d) s)"

text \<open>\<open>s.replace(a, b)\<close> for single characters.\<close>

definition replace_char :: "char \<Rightarrow> char \<Rightarrow> string \<Rightarrow> string" where
  "replace_char a b s = map (\<lambda>c. if c = a then b else c) s"

text \<open>\<open>s.replace(old, '')\<close> for a non-empty \<open>old\<close>: occurrences are removed from left to
  right, without rescanning.\<close>

fun remove_all :: "string \<Rightarrow> string \<Rightarrow> string" where
  "remove_all old [] = []"
| "remove_all old (c # cs) =
     (if old \<noteq> [] \<and> startswith (c # cs) old
      then remove_all old (drop (length old) (c # cs))
      else c # remove_all old cs)"

text \<open>\<open>s.lower()\<close> on ASCII letters.\<close>

definition lower_char :: "char \<Rightarrow> char" where
  "lower_char c =
     (case List.find (\<lambda>(u, l). u = c)
             (zip ''ABCDEFGHIJKLMNOPQRSTUVWXYZ'' ''abcdefghijklmnopqrstuvwxyz'') of
        None \<Rightarrow> c
      | Some (u, l) \<Rightarrow> l)"

definition lower :: "string \<Rightarrow> string" where
  "lower s = map lower_char s"

section \<open>The URL parser the modules import\<close>

text \<open>
  \<open>urllib.parse.urlparse\<close> belongs to the Python standard library, not to the
  repository. Its splitting steps are written out here as the library performs them:
  the scheme up to the first colon when it is made of scheme characters and starts with
  a letter, the network location after \<open>//\<close> up to the first of \<open>/ ? #\<close>, then
  the fragment after the first \<open>#\<close>, the query after the first \<open>?\<close>, and the
  parameters after the first \<open>;\<close> of the last path segment. Before that the library
  strips the leading characters up to the space (code points 0 to 32) and removes every
  tab, carriage return and line feed. For a network location with unbalanced brackets,
  or with brackets around something that is no IPv6 or IPvFuture address, the library
  raises \<open>ValueError\<close>; this exit is not modelled, and statements that depend on it
  exclude such URLs.
\<close>

record parsed_url =
  url_scheme :: string
  url_netloc :: string
  url_path :: string
  url_params :: string
  url_query :: string
  url_fragment :: string

definition is_alpha :: "char \<Rightarrow> bool" where
  "is_alpha c = (c \<in> set ''abcdefghijklmnopqrstuvwxyzABCDEFGHIJKLMNOPQRSTUVWXYZ'')"

definition is_scheme_char :: "char \<Rightarrow> bool" where
  "is_scheme_char c = (is_alpha c \<or> c \<in> set ''0123456789+-.'')"

definition uses_params :: "string list" where
  "uses_params = ['''', ''ftp'', ''hdl'', ''prospero'', ''http'', ''imap'', ''https'',
     ''shttp'', ''rtsp'', ''rtspu'', ''sip'', ''sips'', ''mms'', ''sftp'', ''tel'']"

definition split_scheme :: "string \<Rightarrow> string \<times> string" where
  "split_scheme url =
     (let pre = takeWhile (\<lambda>c. c \<noteq> CHR '':'') url in
      if pre \<noteq> [] \<and> length pre < length url \<and> is_alpha (hd url) \<and> list_all is_scheme_char pre
      then (lower pre, drop (Suc (length pre)) url)
      else ([], url))"

definition netloc_delim :: "char \<Rightarrow> bool" where
  "netloc_delim c = (c = CHR ''/'' \<or> c = CHR ''?'' \<or> c = CHR ''#'')"

definition split_netloc :: "string \<Rightarrow> string \<times> string" where
  "split_netloc url =
     (if take 2 url = ''//''
      then (takeWhile (\<lambda>c. \<not> netloc_delim c) (drop 2 url),
            dropWhile (\<lambda>c. \<not> netloc_delim c) (drop 2 url))
      else ([], url))"

text \<open>\<open>url.split(d, 1)\<close> when \<open>d\<close> occurs; the pair (url, '') otherwise.\<close>

definition split_first :: "char \<Rightarrow> string \<Rightarrow> string \<times> string" where
  "split_first d s = (takeWhile (\<lambda>c. c \<noteq> d) s, drop 1 (dropWhile (\<lambda>c. c \<noteq> d) s))"

definition last_segment :: "string \<Rightarrow> string" where
  "last_segment s = rev (takeWhile (\<lambda>c. c \<noteq> CHR ''/'') (rev s))"

definition splitparams :: "string \<Rightarrow> string \<times> string" where
  "splitparams url =
     (let seg = last_segment url;
          dir = take (length url - length seg) url
      in if CHR '';'' \<in> set seg
         then (dir @ fst (split_first CHR '';'' seg), snd (split_first CHR '';'' seg))
         else (url, []))"

definition c0_control_or_space :: "char \<Rightarrow> bool" where
  "c0_control_or_space c = (of_char c \<le> (32::nat))"

definition unsafe_url_byte :: "char \<Rightarrow> bool" where
  "unsafe_url_byte c = (c = CHR 0x09 \<or> c = CHR 0x0D \<or> c = CHR 0x0A)"

definition clean_url :: "string \<Rightarrow> string" where
  "clean_url url = filter (\<lambda>c. \<not> unsafe_url_byte c) (dropWhile c0_control_or_space url)"

definition urlparse :: "string \<Rightarrow> parsed_url" where
  "urlparse url0 =
     (let url = clean_url url0;
          (sch, r0) = split_scheme url;
          (loc, r1) = split_netloc r0;
          (r2, frag) = split_first CHR ''#'' r1;
          (r3, qry) = split_first CHR ''?'' r2;
          (pth, prm) = (if sch \<in> set uses_params \<and> CHR '';'' \<in> set r3
                        then splitparams r3 else (r3, []))
      in \<lparr>url_scheme = sch, url_netloc = loc, url_path = pth, url_params = prm,
          url_query = qry, url_fragment = frag\<rparr>)"

section \<open>URL discovery (crawler.py)\<close>

subsection \<open>Sitemap mode\<close>

text \<open>
  What \<open>requests.get\<close> followed by \<open>ET.fromstring\<close> yields for a sitemap URL: a
  transport or HTTP error, a parse error, a sitemap index with the text of its
  \<open>sitemap/loc\<close> elements (\<open>None\<close> for an element without text), or a plain sitemap with
  its \<open>url/loc\<close> elements.
\<close>

record loc_elem =
  loc_text :: string
  loc_lastmod :: "string option"
  loc_priority :: "string option"
  loc_changefreq :: "string option"

datatype sitemap_doc =
    RequestFailed
  | XmlParseError
  | SitemapIndex "string option list"
  | UrlSet "loc_elem list"

record url_info =
  info_url :: string
  info_title :: string
  info_description :: string
  info_status_code :: int
  info_content_type :: string
  info_lastmod :: "string option"
  info_priority :: "string option"
  info_changefreq :: "string option"

datatype py_exception = AttributeError

text \<open>
  The element class decides what \<open>url_elem.getparent\<close> does. The module imports
  \<open>xml.etree.ElementTree\<close>, whose elements have no such attribute: reading it raises
  \<open>AttributeError\<close>. An element class that offers \<open>getparent\<close> (a bound method, never
  \<open>None\<close>) reaches the \<open>else\<close> branch instead.
\<close>

datatype xml_library = ElementTree | WithGetparent

definition sitemap_metadata :: "loc_elem \<Rightarrow> url_info" where
  "sitemap_metadata e =
     \<lparr>info_url = loc_text e, info_title = loc_text e, info_description = [],
      info_status_code = 200, info_content_type = ''text/html'',
      info_lastmod = loc_lastmod e, info_priority = loc_priority e,
      info_changefreq = loc_changefreq e\<rparr>"

text \<open>The loop over the \<open>url/loc\<close> elements of a plain sitemap.\<close>

fun collect_urls :: "xml_library \<Rightarrow> nat \<Rightarrow> loc_elem list \<Rightarrow> url_info list
    \<Rightarrow> py_exception + url_info list" where
  "collect_urls lib max_pages [] discovered = Inr discovered"
| "collect_urls lib max_pages (e # es) discovered =
     (if length discovered \<ge> max_pages then Inr discovered
      else if loc_text e = [] then collect_urls lib max_pages es discovered
      else (case lib of
              ElementTree \<Rightarrow> Inl AttributeError
            | WithGetparent \<Rightarrow>
                collect_urls lib max_pages es (discovered @ [sitemap_metadata e])))"

text \<open>The list of child sitemaps read from an index stops growing at \<open>max_pages\<close>.\<close>

fun index_children :: "nat \<Rightarrow> string option list \<Rightarrow> string option list
    \<Rightarrow> string option list" where
  "index_children max_pages [] sitemap_urls = sitemap_urls"
| "index_children max_pages (t # ts) sitemap_urls =
     (if length sitemap_urls < max_pages
      then index_children max_pages ts (sitemap_urls @ [t])
      else index_children max_pages ts sitemap_urls)"

text \<open>
  \<open>crawl_sitemap\<close> calls itself for every child of an index. The first argument bounds
  the nesting depth, as the interpreter's recursion limit does: the \<open>RecursionError\<close>
  raised there is an \<open>Exception\<close>, which the function's last handler turns into the
  empty list. Every exception inside the \<open>try\<close> block makes the call return \<open>[]\<close>.
\<close>

fun crawl_sitemap :: "nat \<Rightarrow> xml_library \<Rightarrow> (string \<Rightarrow> sitemap_doc) \<Rightarrow> nat \<Rightarrow> string
      \<Rightarrow> url_info list"
  and crawl_children :: "nat \<Rightarrow> xml_library \<Rightarrow> (string \<Rightarrow> sitemap_doc) \<Rightarrow> nat
      \<Rightarrow> string option list \<Rightarrow> url_info list \<Rightarrow> url_info list" where
  "crawl_sitemap 0 lib fetch max_pages sitemap_url = []"
| "crawl_sitemap (Suc depth) lib fetch max_pages sitemap_url =
     (case fetch sitemap_url of
        RequestFailed \<Rightarrow> []
      | XmlParseError \<Rightarrow> []
      | SitemapIndex locs \<Rightarrow>
          crawl_children depth lib fetch max_pages (index_children max_pages locs []) []
      | UrlSet elems \<Rightarrow>
          (case collect_urls lib max_pages elems [] of
             Inl _ \<Rightarrow> []
           | Inr discovered \<Rightarrow> discovered))"
| "crawl_children depth lib fetch max_pages [] discovered = discovered"
| "crawl_children depth lib fetch max_pages (child # rest) discovered =
     (let child_urls = (case child of
                          None \<Rightarrow> []
                        | Some u \<Rightarrow> crawl_sitemap depth lib fetch max_pages u);
          discovered' = discovered @ child_urls
      in if length discovered' \<ge> max_pages then discovered'
         else crawl_children depth lib fetch max_pages rest discovered')"

subsection \<open>Recursive mode\<close>

text \<open>
  What a visit of one URL yields: an exception before the page is recorded (from
  \<open>requests.get\<close> or while reading title and description), a response that is not
  HTML, or an HTML page with its title, description, status code, content type and the
  \<open>href\<close> values of its anchors in document order.
\<close>

datatype page =
    VisitFailed
  | NonHtml
  | Html string string int string "string list"

text \<open>
  \<open>urljoin\<close> is a standard-library function; the crawl takes it as a parameter. It
  returns \<open>None\<close> where the library raises (\<open>ValueError\<close> on a malformed reference).
\<close>

type_synonym urljoin_fn = "string \<Rightarrow> string \<Rightarrow> string option"

text \<open>
  The loop over the anchors of one page. An exception of \<open>urljoin\<close> leaves the loop
  (the handler of the enclosing \<open>try\<close> continues with the next URL of the queue).
\<close>

fun enqueue_links :: "urljoin_fn \<Rightarrow> string \<Rightarrow> string \<Rightarrow> string list \<Rightarrow> string list
    \<Rightarrow> string list \<Rightarrow> string list" where
  "enqueue_links urljoin base_url current_url visited [] to_visit = to_visit"
| "enqueue_links urljoin base_url current_url visited (href # hrefs) to_visit =
     (if startswith href ''#'' \<or> startswith href ''javascript:''
      then enqueue_links urljoin base_url current_url visited hrefs to_visit
      else (case urljoin current_url href of
              None \<Rightarrow> to_visit
            | Some absolute_url \<Rightarrow>
                if \<not> startswith absolute_url base_url
                then enqueue_links urljoin base_url current_url visited hrefs to_visit
                else
                  (let parsed = urlparse absolute_url;
                       stripped = (if url_query parsed \<noteq> []
                                   then url_scheme parsed @ ''://'' @ url_netloc parsed
                                        @ url_path parsed
                                   else absolute_url)
                   in if stripped \<notin> set visited \<and> stripped \<notin> set to_visit
                      then enqueue_links urljoin base_url current_url visited hrefs
                             (to_visit @ [stripped])
                      else enqueue_links urljoin base_url current_url visited hrefs
                             to_visit)))"

text \<open>
  The main loop. The set \<open>visited\<close> is kept as the list of its elements in insertion
  order; an element is added only when it is not yet a member, so the length of the list
  is the size of the set.
\<close>

function crawl_loop :: "urljoin_fn \<Rightarrow> (string \<Rightarrow> page) \<Rightarrow> nat \<Rightarrow> string \<Rightarrow> string list
    \<Rightarrow> string list \<Rightarrow> url_info list \<Rightarrow> url_info list" where
  "crawl_loop urljoin fetch max_pages base_url to_visit visited discovered =
     (case to_visit of
        [] \<Rightarrow> discovered
      | current_url # queue \<Rightarrow>
          if \<not> length visited < max_pages then discovered
          else if current_url \<in> set visited
          then crawl_loop urljoin fetch max_pages base_url queue visited discovered
          else
            (case fetch current_url of
               VisitFailed \<Rightarrow>
                 crawl_loop urljoin fetch max_pages base_url queue
                   (visited @ [current_url]) discovered
             | NonHtml \<Rightarrow>
                 crawl_loop urljoin fetch max_pages base_url queue
                   (visited @ [current_url]) discovered
             | Html title description status_code content_type hrefs \<Rightarrow>
                 crawl_loop urljoin fetch max_pages base_url
                   (enqueue_links urljoin base_url current_url (visited @ [current_url])
                      hrefs queue)
                   (visited @ [current_url])
                   (discovered @
                      [\<lparr>info_url = current_url, info_title = title,
                        info_description = description, info_status_code = status_code,
                        info_content_type = content_type, info_lastmod = None,
                        info_priority = None, info_changefreq = None\<rparr>])))"
  by pat_completeness auto
termination
  by (relation "measures [\<lambda>(urljoin, fetch, max_pages, base_url, to_visit, visited, discovered).
                             max_pages - length visited,
                          \<lambda>(urljoin, fetch, max_pages, base_url, to_visit, visited, discovered).
                             length to_visit]") auto

declare crawl_loop.simps [simp del]

definition crawl :: "urljoin_fn \<Rightarrow> (string \<Rightarrow> page) \<Rightarrow> nat \<Rightarrow> string \<Rightarrow> url_info list" where
  "crawl urljoin fetch max_pages start_url =
     (let parsed_url = urlparse start_url;
          base_url = url_scheme parsed_url @ ''://'' @ url_netloc parsed_url
      in crawl_loop urljoin fetch max_pages base_url [start_url] [] [])"

section \<open>Paths as the operating system handles them\<close>

text \<open>
  The functions of \<open>os.path\<close> are modelled in their POSIX form (\<open>posixpath\<close>), with
  \<open>/\<close> as the only separator. The current working directory, which \<open>abspath\<close> and
  \<open>relpath\<close> consult, is a parameter.
\<close>

definition path_join :: "string \<Rightarrow> string \<Rightarrow> string" where
  "path_join a b =
     (if startswith b ''/'' then b
      else if a = [] \<or> endswith a ''/'' then a @ b
      else a @ ''/'' @ b)"

definition path_join_all :: "string \<Rightarrow> string list \<Rightarrow> string" where
  "path_join_all a parts = foldl path_join a parts"

definition dirname :: "string \<Rightarrow> string" where
  "dirname p =
     (let head = take (length p - length (last_segment p)) p
      in if head \<noteq> [] \<and> head \<noteq> replicate (length head) CHR ''/''
         then rstrip_char CHR ''/'' head else head)"

definition basename :: "string \<Rightarrow> string" where
  "basename p = last_segment p"

definition splitext :: "string \<Rightarrow> string \<times> string" where
  "splitext p =
     (let seg = last_segment p;
          ext = rev (takeWhile (\<lambda>c. c \<noteq> CHR ''.'') (rev seg));
          stem = take (length seg - length ext - 1) seg
      in if CHR ''.'' \<in> set seg \<and> (\<exists>c \<in> set stem. c \<noteq> CHR ''.'')
         then (take (length p - length ext - 1) p, CHR ''.'' # ext)
         else (p, []))"

fun norm_comps :: "bool \<Rightarrow> string list \<Rightarrow> string list \<Rightarrow> string list" where
  "norm_comps initial_slashes [] new_comps = new_comps"
| "norm_comps initial_slashes (cmp # comps) new_comps =
     (if cmp = [] \<or> cmp = ''.'' then norm_comps initial_slashes comps new_comps
      else if cmp \<noteq> ''..'' \<or> (\<not> initial_slashes \<and> new_comps = [])
              \<or> (new_comps \<noteq> [] \<and> last new_comps = ''..'')
      then norm_comps initial_slashes comps (new_comps @ [cmp])
      else if new_comps \<noteq> [] then norm_comps initial_slashes comps (butlast new_comps)
      else norm_comps initial_slashes comps new_comps)"

fun join_with :: "string \<Rightarrow> string list \<Rightarrow> string" where
  "join_with sep [] = []"
| "join_with sep [x] = x"
| "join_with sep (x # y # ys) = x @ sep @ join_with sep (y # ys)"

definition normpath :: "string \<Rightarrow> string" where
  "normpath p =
     (if p = [] then ''.''
      else
        (let initial_slashes =
               (if startswith p ''/''
                then (if startswith p ''//'' \<and> \<not> startswith p ''///'' then 2 else 1)
                else (0::nat));
             comps = norm_comps (initial_slashes \<noteq> 0) (split_on CHR ''/'' p) [];
             joined = replicate initial_slashes CHR ''/'' @ join_with ''/'' comps
         in if joined = [] then ''.'' else joined))"

definition abspath :: "string \<Rightarrow> string \<Rightarrow> string" where
  "abspath cwd p = normpath (if startswith p ''/'' then p else path_join cwd p)"

fun common_prefix_len :: "string list \<Rightarrow> string list \<Rightarrow> nat" where
  "common_prefix_len (x # xs) (y # ys) = (if x = y then Suc (common_prefix_len xs ys) else 0)"
| "common_prefix_len _ _ = 0"

text \<open>\<open>os.path.relpath(path, start)\<close>; \<open>None\<close> is the \<open>ValueError\<close> for an empty path.\<close>

definition relpath :: "string \<Rightarrow> string \<Rightarrow> string \<Rightarrow> string option" where
  "relpath cwd p start =
     (if p = [] then None
      else
        (let start_list = filter (\<lambda>x. x \<noteq> []) (split_on CHR ''/'' (abspath cwd start));
             path_list = filter (\<lambda>x. x \<noteq> []) (split_on CHR ''/'' (abspath cwd p));
             i = common_prefix_len start_list path_list;
             rel_list = replicate (length start_list - i) ''..'' @ drop i path_list
         in (case rel_list of
               [] \<Rightarrow> Some ''.''
             | r # rs \<Rightarrow> Some (path_join_all r rs))))"

section \<open>Python slices\<close>

text \<open>
  A slice bound may be negative (it then counts from the end) or beyond the end of the
  string; Python clamps it into the string.
\<close>

definition py_index :: "nat \<Rightarrow> int \<Rightarrow> nat" where
  "py_index n i = (if i < 0 then nat (max 0 (int n + i)) else min n (nat i))"

definition py_upto :: "string \<Rightarrow> int \<Rightarrow> string" where
  "py_upto s i = take (py_index (length s) i) s"

definition py_from :: "string \<Rightarrow> int \<Rightarrow> string" where
  "py_from s i = drop (py_index (length s) i) s"

definition py_slice :: "string \<Rightarrow> int \<Rightarrow> int \<Rightarrow> string" where
  "py_slice s i j =
     take (py_index (length s) j - py_index (length s) i) (drop (py_index (length s) i) s)"

section \<open>Link rewriting (link\_validator.py)\<close>

record link =
  link_url :: string
  link_text :: string
  link_start :: int
  link_end :: int

record external_link =
  ext_from_file :: string
  ext_url :: string
  ext_text :: string

record fixed_link =
  fixed_file :: string
  fixed_from :: string
  fixed_to :: string
  fixed_text :: string

record broken_link =
  broken_file :: string
  broken_url :: string
  broken_text :: string

text \<open>
  The pattern \<open>\[([^\]]*)\]\(([^)]+)\)\<close> tried at the head of a string: an opening
  bracket, the text up to the next closing bracket, which \<open>(\<close> must follow at once,
  then a non-empty target up to the next closing parenthesis. Neither group can be
  shortened into a match, so the greedy reading is the only one. The result is the text,
  the target and the length of the whole match.
\<close>

definition match_link :: "string \<Rightarrow> (string \<times> string \<times> nat) option" where
  "match_link s =
     (case s of
        [] \<Rightarrow> None
      | c # r \<Rightarrow>
          if c \<noteq> CHR ''['' then None
          else
            (let text = takeWhile (\<lambda>x. x \<noteq> CHR '']'') r;
                 r1 = drop (length text) r
             in if take 2 r1 \<noteq> '']('' then None
                else
                  (let r2 = drop 2 r1;
                       target = takeWhile (\<lambda>x. x \<noteq> CHR '')'') r2;
                       r3 = drop (length target) r2
                   in if target = [] \<or> r3 = [] then None
                      else Some (text, target, length text + length target + 4))))"

text \<open>
  \<open>re.finditer\<close>: matches are searched from left to right, the search resuming where
  the previous match ended. The stored position is the span of the second group.
\<close>

function finditer :: "nat \<Rightarrow> string \<Rightarrow> link list" where
  "finditer pos s =
     (if s = [] then []
      else (case match_link s of
              None \<Rightarrow> finditer (Suc pos) (tl s)
            | Some (text, target, n) \<Rightarrow>
                \<lparr>link_url = target, link_text = text,
                 link_start = int (pos + length text + 3),
                 link_end = int (pos + length text + 3 + length target)\<rparr>
                # finditer (pos + n) (drop n s)))"
  by pat_completeness auto
termination
  by (relation "measure (\<lambda>(pos, s). length s)")
     (auto simp: match_link_def Let_def split: list.splits if_splits)

declare finditer.simps [simp del]

text \<open>
  The state of a \<open>LinkValidator\<close>: \<open>internal_links\<close> is a dictionary from a file's
  relative path to its links, in insertion order.
\<close>

record validator =
  internal_links :: "(string \<times> link list) list"
  external_links :: "external_link list"

fun record_links :: "string \<Rightarrow> link list \<Rightarrow> validator \<Rightarrow> validator" where
  "record_links rel_path [] v = v"
| "record_links rel_path (m # ms) v =
     (if startswith (link_url m) ''./images/'' then record_links rel_path ms v
      else if url_scheme (urlparse (link_url m)) \<in> {''http'', ''https''}
      then record_links rel_path ms
             (v\<lparr>external_links := external_links v @
                  [\<lparr>ext_from_file = rel_path, ext_url = link_url m,
                    ext_text = link_text m\<rparr>]\<rparr>)
      else record_links rel_path ms
             (v\<lparr>internal_links :=
                  AList.update rel_path
                    ((case map_of (internal_links v) rel_path of
                        None \<Rightarrow> []
                      | Some ls \<Rightarrow> ls) @ [m])
                    (internal_links v)\<rparr>))"

text \<open>
  The Markdown files below \<open>pages\<close> are given as pairs of relative path and content, in
  the order \<open>os.walk\<close> visits them. The handler around each file matters only when the
  URL parser raises \<open>ValueError\<close> on a target: the code then abandons the rest of that
  file. This exit is not modelled; statements about which links are found exclude
  targets with brackets.
\<close>

fun find_links_in_markdown :: "(string \<times> string) list \<Rightarrow> validator \<Rightarrow> validator" where
  "find_links_in_markdown [] v = v"
| "find_links_in_markdown ((rel_path, content) # files) v =
     find_links_in_markdown files (record_links rel_path (finditer 0 content) v)"

text \<open>A target that the scan does not classify as external.\<close>

definition non_http :: "string \<Rightarrow> bool" where
  "non_http url = (url_scheme (urlparse url) \<notin> {''http'', ''https''})"

text \<open>\<open>sorted(links, key=start, reverse=True)\<close>: stable, descending.\<close>

definition sort_links :: "link list \<Rightarrow> link list" where
  "sort_links links = rev (sort_key link_start (rev links))"

record fix_state =
  fix_content :: string
  fix_fixed :: "fixed_link list"
  fix_broken :: "broken_link list"
  file_updated :: bool
  fix_raised :: bool

text \<open>
  The loop over the links of one file, in the order fixed by the sort. The positions of
  the links still to come are the ones the loop has adjusted so far. An empty target in
  \<open>pages_map\<close> makes \<open>relpath\<close> raise; the handler around the file then abandons the file.
\<close>

fun fix_links :: "(string \<rightharpoonup> string) \<Rightarrow> string \<Rightarrow> string \<Rightarrow> link list \<Rightarrow> fix_state
    \<Rightarrow> fix_state" where
  "fix_links pages_map cwd file_rel_path [] st = st"
| "fix_links pages_map cwd file_rel_path (l # ls) st =
     (if endswith (link_url l) ''.md''
         \<and> (CHR ''/'' \<in> set (link_url l) \<or> CHR 0x5C \<in> set (link_url l))
      then fix_links pages_map cwd file_rel_path ls st
      else
        (case pages_map (link_url l) of
           None \<Rightarrow>
             fix_links pages_map cwd file_rel_path ls
               (st\<lparr>fix_broken := fix_broken st @
                     [\<lparr>broken_file = file_rel_path, broken_url = link_url l,
                       broken_text = link_text l\<rparr>]\<rparr>)
         | Some target_path \<Rightarrow>
             (case (if dirname file_rel_path \<noteq> []
                    then relpath cwd target_path (dirname file_rel_path)
                    else Some target_path) of
                None \<Rightarrow> st\<lparr>fix_raised := True\<rparr>
              | Some rp \<Rightarrow>
                  (let rel_path = replace_char (CHR 0x5C) CHR ''/'' rp;
                       content = fix_content st;
                       old_link_part = py_slice content (link_start l) (link_end l);
                       position_shift = int (length rel_path) - int (length old_link_part)
                   in fix_links pages_map cwd file_rel_path
                        (map (\<lambda>other. if link_start other < link_start l
                                       then other\<lparr>link_end := link_end other + position_shift\<rparr>
                                       else other) ls)
                        (st\<lparr>fix_content := py_upto content (link_start l) @ rel_path
                                            @ py_from content (link_end l),
                            fix_fixed := fix_fixed st @
                              [\<lparr>fixed_file = file_rel_path, fixed_from = link_url l,
                                fixed_to = rel_path, fixed_text = link_text l\<rparr>],
                            file_updated := True\<rparr>)))))"

record fix_result =
  res_files :: "(string \<times> string) list"
  fixed_links :: "fixed_link list"
  broken_links :: "broken_link list"

text \<open>
  One file of \<open>internal_links\<close>: read it, run the loop, write it back when a link was
  replaced. A file that cannot be read, or whose loop raised, is left as it is.
\<close>

definition fix_file :: "(string \<rightharpoonup> string) \<Rightarrow> string \<Rightarrow> string \<Rightarrow> link list \<Rightarrow> fix_result
    \<Rightarrow> fix_result" where
  "fix_file pages_map cwd file_rel_path links r =
     (case map_of (res_files r) file_rel_path of
        None \<Rightarrow> r
      | Some content \<Rightarrow>
          (let st = fix_links pages_map cwd file_rel_path (sort_links links)
                      \<lparr>fix_content = content, fix_fixed = fixed_links r,
                       fix_broken = broken_links r, file_updated = False,
                       fix_raised = False\<rparr>
           in \<lparr>res_files = (if file_updated st \<and> \<not> fix_raised st
                             then AList.update file_rel_path (fix_content st) (res_files r)
                             else res_files r),
               fixed_links = fix_fixed st, broken_links = fix_broken st\<rparr>))"

fun fix_files :: "(string \<rightharpoonup> string) \<Rightarrow> string \<Rightarrow> (string \<times> link list) list \<Rightarrow> fix_result
    \<Rightarrow> fix_result" where
  "fix_files pages_map cwd [] r = r"
| "fix_files pages_map cwd ((file_rel_path, links) # rest) r =
     fix_files pages_map cwd rest (fix_file pages_map cwd file_rel_path links r)"

definition fix_internal_links :: "(string \<rightharpoonup> string) \<Rightarrow> string \<Rightarrow> validator
    \<Rightarrow> (string \<times> string) list \<Rightarrow> fix_result" where
  "fix_internal_links pages_map cwd v files =
     fix_files pages_map cwd (internal_links v)
       \<lparr>res_files = files, fixed_links = [], broken_links = []\<rparr>"

text \<open>The two steps \<open>validate_links\<close> runs once \<open>pages_map\<close> is built.\<close>

definition rewrite_pass :: "(string \<rightharpoonup> string) \<Rightarrow> string \<Rightarrow> (string \<times> string) list
    \<Rightarrow> fix_result" where
  "rewrite_pass pages_map cwd files =
     fix_internal_links pages_map cwd
       (find_links_in_markdown files \<lparr>internal_links = [], external_links = []\<rparr>) files"

section \<open>The network, the disk and the state of a run\<close>

text \<open>
  A request is answered either with a response or with a
  \<open>requests.exceptions.RequestException\<close>, which may carry the status code of a response
  and has a message (\<open>str(e)\<close>). Of a response the model keeps the status code, the
  \<open>Content-Type\<close> header, the body, the message of the \<open>HTTPError\<close> that
  \<open>raise_for_status\<close> raises for it, the \<open>content-length\<close> header and whether
  streaming the body breaks off with an exception after the part in \<open>body\<close>.
\<close>

datatype request = GET string | HEAD string | GET_RANGE string

datatype length_header = NoLength | Length int | BadLength

record response =
  status_code :: int
  content_type :: string
  body :: string
  error_text :: string
  content_length :: length_header
  stream_error :: bool

datatype http_outcome = Response response | RequestException "int option" string

datatype media_result =
    MediaExists string string
  | MediaDownloaded string string nat string

text \<open>The \<open>file_path\<close> entry of a media result.\<close>

definition media_result_path :: "media_result \<Rightarrow> string" where
  "media_result_path r =
     (case r of
        MediaExists url file_path \<Rightarrow> file_path
      | MediaDownloaded url file_path sz ctype \<Rightarrow> file_path)"

record media_info =
  mi_url :: string
  mi_file_path :: string
  mi_content_type :: string
  mi_size :: nat

record media_results =
  mr_total :: nat
  mr_downloaded :: nat
  mr_media :: "media_result list"
  mr_media_info :: "media_info list"

datatype log_entry =
    PageLog string int string string nat string
  | MediaLog media_info

record error_entry =
  err_url :: string
  err_error :: string
  err_status_code :: "int option"
  err_attempt :: nat

text \<open>The result of \<open>_download_url\<close>: the dictionary with \<open>'status': 'skipped'\<close>, or the
  dictionary of a download (url, file path, metadata path, content type, status code,
  size, media results).\<close>

datatype download_result =
    Skipped string string int
  | Downloaded string string string string int nat "media_results option"

text \<open>The \<open>file_path\<close> entry of a result.\<close>

definition result_file_path :: "download_result \<Rightarrow> string" where
  "result_file_path res =
     (case res of
        Skipped url file_path code \<Rightarrow> file_path
      | Downloaded url file_path metadata_path ctype code sz media \<Rightarrow> file_path)"


text \<open>The documents that are written with \<open>json.dump\<close>.\<close>

datatype json_doc =
    MetadataDoc string response string "media_results option"
  | StatusReport nat nat "(int \<times> nat) list"
  | UrlList "string list"
  | SessionLog "log_entry list"
  | ErrorLog "error_entry list"

record config =
  max_retries :: int
  retry_status_codes :: "int list"
  adaptive_rate_limit :: bool
  min_delay :: real
  max_delay :: real
  backoff_factor :: real
  generate_status_report :: bool

text \<open>
  What the run takes from outside: the server's answer to the \<open>n\<close>-th request of the
  run, the working directory, the rendering of JSON documents (which holds clock
  readings), the media URLs BeautifulSoup finds in a page, \<open>str(hash(url))\<close>, the first
  eight hexadecimal digits of the MD5 of a URL, the size reported for a directory, the
  \<open>Sites\<close> directory next to the package and the two timestamps of a batch.
\<close>

record env =
  server :: "nat \<Rightarrow> request \<Rightarrow> http_outcome"
  cwd :: string
  json_dump :: "json_doc \<Rightarrow> string"
  extract_media_urls :: "string \<Rightarrow> string \<Rightarrow> string list"
  hash_str :: "string \<Rightarrow> string"
  md5_hex8 :: "string \<Rightarrow> string"
  dir_size :: "string \<Rightarrow> nat"
  sites_root :: string
  session_timestamp :: string
  report_timestamp :: string

text \<open>
  The state of a run: the fields of the \<open>ContentDownloader\<close> and of its
  \<open>MediaDownloader\<close> that change, the disk, and the requests sent so far. Files and
  directories are keyed by their normalised absolute path. Delays are real numbers; the
  waiting itself (\<open>time.sleep\<close>) has no effect on the state. Errors of the file system
  (permissions, a file where a directory is needed) are outside the model.
\<close>

record run_state =
  request_delay :: real
  status_codes :: "(int \<times> nat) list"
  session_logs :: "log_entry list"
  error_logs :: "error_entry list"
  all_urls :: "string list"
  request_count :: nat
  downloaded_urls :: "string \<rightharpoonup> string"
  media_download_info :: "media_info list"
  files :: "(string \<times> string) list"
  dirs :: "string set"
  requests :: "request list"

definition send :: "env \<Rightarrow> request \<Rightarrow> run_state \<Rightarrow> http_outcome \<times> run_state" where
  "send e rq st = (server e (length (requests st)) rq, st\<lparr>requests := requests st @ [rq]\<rparr>)"

definition path_exists :: "env \<Rightarrow> run_state \<Rightarrow> string \<Rightarrow> bool" where
  "path_exists e st p =
     (map_of (files st) (abspath (cwd e) p) \<noteq> None \<or> abspath (cwd e) p \<in> dirs st)"

text \<open>\<open>os.makedirs\<close> creates the directory and every missing directory above it.\<close>

definition dir_chain :: "string \<Rightarrow> string list" where
  "dir_chain k = map (\<lambda>i. take i k) (filter (\<lambda>i. k ! i = CHR ''/'') [1..<length k]) @ [k]"

definition ensure_dir :: "env \<Rightarrow> run_state \<Rightarrow> string \<Rightarrow> run_state" where
  "ensure_dir e st p =
     (if path_exists e st p then st
      else st\<lparr>dirs := dirs st \<union> set (dir_chain (abspath (cwd e) p))\<rparr>)"

definition write_file :: "env \<Rightarrow> run_state \<Rightarrow> string \<Rightarrow> string \<Rightarrow> run_state" where
  "write_file e st p data = st\<lparr>files := AList.update (abspath (cwd e) p) data (files st)\<rparr>"

definition read_file :: "env \<Rightarrow> run_state \<Rightarrow> string \<Rightarrow> string option" where
  "read_file e st p = map_of (files st) (abspath (cwd e) p)"

definition getsize :: "env \<Rightarrow> run_state \<Rightarrow> string \<Rightarrow> nat" where
  "getsize e st p = (case read_file e st p of Some data \<Rightarrow> length data | None \<Rightarrow> dir_size e p)"

definition raises_for_status :: "response \<Rightarrow> bool" where
  "raises_for_status r = (400 \<le> status_code r \<and> status_code r < 600)"

section \<open>Media download (media\_downloader.py)\<close>

definition is_same_domain :: "string \<Rightarrow> string \<Rightarrow> bool" where
  "is_same_domain url base_url =
     (remove_all ''www.'' (url_netloc (urlparse url))
      = remove_all ''www.'' (url_netloc (urlparse base_url)))"

definition get_url_key :: "string \<Rightarrow> string" where
  "get_url_key url =
     (let parsed = urlparse url
      in url_scheme parsed @ ''://'' @ url_netloc parsed @ url_path parsed)"

text \<open>\<open>_is_same_file\<close>: every exception inside makes the answer \<open>False\<close>.\<close>

definition is_same_file :: "env \<Rightarrow> string \<Rightarrow> string \<Rightarrow> run_state \<Rightarrow> bool \<times> run_state" where
  "is_same_file e url file_path st =
     (let local_size = getsize e st file_path
      in (case send e (HEAD url) st of
            (RequestException sc msg, st1) \<Rightarrow> (False, st1)
          | (Response head_response, st1) \<Rightarrow>
              (case content_length head_response of
                 Length remote_size \<Rightarrow> (int local_size = remote_size, st1)
               | BadLength \<Rightarrow> (False, st1)
               | NoLength \<Rightarrow>
                   if local_size < 1024
                   then (case send e (GET_RANGE url) st1 of
                           (RequestException sc msg, st2) \<Rightarrow> (False, st2)
                         | (Response range_response, st2) \<Rightarrow>
                             (case read_file e st2 file_path of
                                None \<Rightarrow> (False, st2)
                              | Some data \<Rightarrow>
                                  (take 1024 data
                                   = take (length (take 1024 data)) (body range_response),
                                   st2)))
                   else (False, st1))))"

text \<open>The retry loop of \<open>download_media\<close>.\<close>

function media_fetch :: "config \<Rightarrow> env \<Rightarrow> string \<Rightarrow> string \<Rightarrow> nat \<Rightarrow> run_state
    \<Rightarrow> media_result option \<times> run_state" where
  "media_fetch cfg e url file_path retries st =
     (if \<not> int retries \<le> max_retries cfg then (None, st)
      else (case send e (GET url) st of
              (RequestException sc msg, st1) \<Rightarrow>
                media_fetch cfg e url file_path (Suc retries) st1
            | (Response r, st1) \<Rightarrow>
                if raises_for_status r
                then media_fetch cfg e url file_path (Suc retries) st1
                else if stream_error r
                then media_fetch cfg e url file_path (Suc retries)
                       (write_file e st1 file_path (body r))
                else
                  (let st2 = write_file e st1 file_path (body r);
                       file_size = length (body r)
                   in (Some (MediaDownloaded url file_path file_size (content_type r)),
                       st2\<lparr>media_download_info := media_download_info st2 @
                             [\<lparr>mi_url = url, mi_file_path = file_path,
                               mi_content_type = content_type r, mi_size = file_size\<rparr>],
                           downloaded_urls := (downloaded_urls st2)(get_url_key url \<mapsto> file_path)\<rparr>))))"
  by pat_completeness auto
termination
  by (relation "measure (\<lambda>(cfg, e, url, file_path, retries, st).
                   nat (max_retries cfg + 1 - int retries))") auto

declare media_fetch.simps [simp del]

definition download_media :: "config \<Rightarrow> env \<Rightarrow> string \<Rightarrow> string \<Rightarrow> string \<Rightarrow> run_state
    \<Rightarrow> media_result option \<times> run_state" where
  "download_media cfg e url site_dir base_url st =
     (if \<not> is_same_domain url base_url then (None, st)
      else
        (case downloaded_urls st (get_url_key url) of
           Some known_path \<Rightarrow> (Some (MediaExists url known_path), st)
         | None \<Rightarrow>
             (let html_dir = path_join site_dir ''HTML'';
                  st1 = ensure_dir e st html_dir;
                  pth = strip_char CHR ''/'' (url_path (urlparse url));
                  path_parts = split_on CHR ''/'' pth;
                  filename = (if pth = [] then ''media_'' @ hash_str e url else last path_parts);
                  rel_path = (if pth \<noteq> [] \<and> length path_parts > 1
                              then path_join_all (hd path_parts) (tl (butlast path_parts))
                              else []);
                  full_media_path = path_join html_dir rel_path;
                  st2 = (if rel_path \<noteq> [] then ensure_dir e st1 full_media_path else st1);
                  file_path = (if rel_path \<noteq> [] then path_join full_media_path filename
                               else path_join html_dir filename)
              in if path_exists e st2 file_path
                 then
                   (case is_same_file e url file_path st2 of
                      (True, st3) \<Rightarrow>
                        (Some (MediaExists url file_path),
                         st3\<lparr>downloaded_urls := (downloaded_urls st3)(get_url_key url \<mapsto> file_path)\<rparr>)
                    | (False, st3) \<Rightarrow>
                        (let renamed = fst (splitext filename) @ ''_'' @ md5_hex8 e url
                                       @ snd (splitext filename);
                             file_path' = (if rel_path \<noteq> [] then path_join full_media_path renamed
                                           else path_join html_dir renamed)
                         in media_fetch cfg e url file_path' 0 st3))
                 else media_fetch cfg e url file_path 0 st2)))"

fun download_media_list :: "config \<Rightarrow> env \<Rightarrow> string \<Rightarrow> string \<Rightarrow> string list
    \<Rightarrow> media_result list \<Rightarrow> run_state \<Rightarrow> media_result list \<times> run_state" where
  "download_media_list cfg e site_dir base_url [] downloaded_media st = (downloaded_media, st)"
| "download_media_list cfg e site_dir base_url (url # urls) downloaded_media st =
     (case download_media cfg e url site_dir base_url st of
        (None, st1) \<Rightarrow> download_media_list cfg e site_dir base_url urls downloaded_media st1
      | (Some result, st1) \<Rightarrow>
          download_media_list cfg e site_dir base_url urls (downloaded_media @ [result]) st1)"

definition download_all_media :: "config \<Rightarrow> env \<Rightarrow> string \<Rightarrow> string \<Rightarrow> string \<Rightarrow> run_state
    \<Rightarrow> media_results \<times> run_state" where
  "download_all_media cfg e html_content base_url site_dir st =
     (let media_urls = extract_media_urls e html_content base_url
      in (case download_media_list cfg e site_dir base_url media_urls [] st of
            (downloaded_media, st1) \<Rightarrow>
              (\<lparr>mr_total = length media_urls, mr_downloaded = length downloaded_media,
                mr_media = downloaded_media, mr_media_info = media_download_info st1\<rparr>,
               st1)))"

section \<open>Content download (downloader.py)\<close>

subsection \<open>The local path of a page\<close>

text \<open>
  The components of the path below the \<open>HTML\<close> directory, as \<open>_download_url\<close> derives
  them from the URL: the segments of the URL path, the last one with \<open>.html\<close> appended
  when it has no dot, or the single name built from the host when the path is empty.
\<close>

definition page_path_parts :: "string \<Rightarrow> string list" where
  "page_path_parts url =
     (let parsed = urlparse url;
          domain_name = replace_char CHR ''.'' CHR ''_'' (url_netloc parsed);
          pth = strip_char CHR ''/'' (url_path parsed)
      in if pth \<noteq> []
         then
           (let path_parts = split_on CHR ''/'' pth;
                filename = last path_parts
            in if CHR ''.'' \<notin> set filename
               then butlast path_parts @ [filename @ ''.html'']
               else path_parts)
         else [domain_name @ ''_index.html''])"

definition page_file_path :: "string \<Rightarrow> string \<Rightarrow> string" where
  "page_file_path archive_dir url =
     path_join_all (path_join archive_dir ''HTML'') (page_path_parts url)"

subsection \<open>The delay and the counters\<close>

definition penalize :: "config \<Rightarrow> run_state \<Rightarrow> run_state" where
  "penalize cfg st =
     st\<lparr>request_delay := min (request_delay st * backoff_factor cfg) (max_delay cfg)\<rparr>"

text \<open>The status histogram is a \<open>Counter\<close>: a status that is not yet a key counts as 0.\<close>

definition status_count :: "run_state \<Rightarrow> int \<Rightarrow> nat" where
  "status_count st code = (case map_of (status_codes st) code of None \<Rightarrow> 0 | Some n \<Rightarrow> n)"

definition count_status :: "int \<Rightarrow> run_state \<Rightarrow> run_state" where
  "count_status code st =
     st\<lparr>status_codes := AList.update code (Suc (status_count st code)) (status_codes st)\<rparr>"

text \<open>What the loop does to the state when a response has a retry status and attempts
  remain.\<close>

definition on_retry_status :: "config \<Rightarrow> run_state \<Rightarrow> run_state" where
  "on_retry_status cfg st = (if adaptive_rate_limit cfg then penalize cfg st else st)"

definition is_rate_limit :: "int option \<Rightarrow> string \<Rightarrow> bool" where
  "is_rate_limit status msg =
     (status = Some 429
      \<or> (contains (lower msg) ''rate''
         \<and> (contains (lower msg) ''limit'' \<or> contains (lower msg) ''exceed'')))"

text \<open>What the handler of \<open>RequestException\<close> does to the state; \<open>attempt\<close> is the
  retry counter after its increment.\<close>

definition on_exception :: "config \<Rightarrow> string \<Rightarrow> nat \<Rightarrow> int option \<Rightarrow> string \<Rightarrow> run_state
    \<Rightarrow> run_state" where
  "on_exception cfg url attempt status msg st =
     (let st1 = (case status of None \<Rightarrow> st | Some code \<Rightarrow> count_status code st);
          st2 = (if is_rate_limit status msg \<and> adaptive_rate_limit cfg
                 then penalize cfg st1 else st1)
      in st2\<lparr>error_logs := error_logs st2 @
               [\<lparr>err_url = url, err_error = msg, err_status_code = status,
                 err_attempt = attempt\<rparr>]\<rparr>)"

subsection \<open>Storing one page\<close>

text \<open>
  The part of \<open>_download_url\<close> that follows \<open>raise_for_status\<close>: directories, the
  existence check, the media of the page, the content file, the metadata file and the
  session log.
\<close>

definition save_page :: "config \<Rightarrow> env \<Rightarrow> string \<Rightarrow> string \<Rightarrow> bool \<Rightarrow> response \<Rightarrow> run_state
    \<Rightarrow> download_result option \<times> run_state" where
  "save_page cfg e url archive_dir with_media r st =
     (let site_dir = archive_dir;
          html_dir = path_join site_dir ''HTML'';
          json_dir = path_join site_dir ''JSON'';
          logs_dir = path_join site_dir ''Logs'';
          st1 = ensure_dir e (ensure_dir e (ensure_dir e st html_dir) json_dir) logs_dir;
          path_parts = page_path_parts url;
          st2 = (if strip_char CHR ''/'' (url_path (urlparse url)) \<noteq> []
                 then ensure_dir e st1 (path_join_all html_dir (butlast path_parts))
                 else st1);
          file_path = path_join_all html_dir path_parts
      in if path_exists e st2 file_path
         then (Some (Skipped url file_path (status_code r)), st2)
         else
           (let content = body r;
                (media, st3) =
                   (if with_media \<and> contains (content_type r) ''text/html''
                    then (case download_all_media cfg e content url site_dir
                                 (st2\<lparr>media_download_info := []\<rparr>) of
                            (mr, s) \<Rightarrow> (Some mr, s))
                    else (None, st2));
                st4 = write_file e st3 file_path content;
                rel_path = (case relpath (cwd e) file_path html_dir of
                              None \<Rightarrow> [] | Some rp \<Rightarrow> rp);
                json_filename = fst (splitext (basename file_path)) @ ''_meta.json'';
                json_rel_dir = dirname rel_path;
                st5 = (if json_rel_dir \<noteq> []
                       then ensure_dir e st4 (path_join json_dir json_rel_dir) else st4);
                metadata_path = (if json_rel_dir \<noteq> []
                                 then path_join (path_join json_dir json_rel_dir) json_filename
                                 else path_join json_dir json_filename);
                st6 = write_file e st5 metadata_path
                        (json_dump e (MetadataDoc url r file_path media));
                st7 = st6\<lparr>session_logs := session_logs st6 @
                            [PageLog url (status_code r) file_path metadata_path
                               (length content) (content_type r)] @
                            (case media of
                               None \<Rightarrow> []
                             | Some mr \<Rightarrow> map MediaLog (mr_media_info mr))\<rparr>
            in (Some (Downloaded url file_path metadata_path (content_type r)
                        (status_code r) (length content) media),
                st7)))"

subsection \<open>The retry loop\<close>

function download_url_loop :: "config \<Rightarrow> env \<Rightarrow> string \<Rightarrow> string \<Rightarrow> bool \<Rightarrow> nat \<Rightarrow> run_state
    \<Rightarrow> download_result option \<times> run_state" where
  "download_url_loop cfg e url archive_dir with_media retries st =
     (if \<not> int retries \<le> max_retries cfg then (None, st)
      else (case send e (GET url) st of
              (RequestException status msg, st1) \<Rightarrow>
                (let st2 = on_exception cfg url (Suc retries) status msg st1
                 in if int (Suc retries) \<le> max_retries cfg
                    then download_url_loop cfg e url archive_dir with_media (Suc retries) st2
                    else (None, st2))
            | (Response r, st1) \<Rightarrow>
                (let st2 = count_status (status_code r) st1
                 in if status_code r \<in> set (retry_status_codes cfg)
                       \<and> int retries < max_retries cfg
                    then download_url_loop cfg e url archive_dir with_media (Suc retries)
                           (on_retry_status cfg st2)
                    else if raises_for_status r
                    then
                      (let st3 = on_exception cfg url (Suc retries) (Some (status_code r))
                                   (error_text r) st2
                       in if int (Suc retries) \<le> max_retries cfg
                          then download_url_loop cfg e url archive_dir with_media
                                 (Suc retries) st3
                          else (None, st3))
                    else save_page cfg e url archive_dir with_media r st2)))"
  by pat_completeness auto
termination
  by (relation "measure (\<lambda>(cfg, e, url, archive_dir, with_media, retries, st).
                   nat (max_retries cfg + 1 - int retries))") auto

declare download_url_loop.simps [simp del]

definition download_url :: "config \<Rightarrow> env \<Rightarrow> string \<Rightarrow> string \<Rightarrow> bool \<Rightarrow> run_state
    \<Rightarrow> download_result option \<times> run_state" where
  "download_url cfg e url archive_dir with_media st =
     download_url_loop cfg e url archive_dir with_media 0 st"

subsection \<open>A batch\<close>

text \<open>The loop of \<open>download_all\<close> over the URLs.\<close>

fun download_each :: "config \<Rightarrow> env \<Rightarrow> string \<Rightarrow> bool \<Rightarrow> string list
    \<Rightarrow> download_result list \<Rightarrow> run_state \<Rightarrow> download_result list \<times> run_state" where
  "download_each cfg e archive_dir with_media [] results st = (results, st)"
| "download_each cfg e archive_dir with_media (url # urls) results st =
     (case download_url cfg e url archive_dir with_media
             (st\<lparr>all_urls := all_urls st @ [url]\<rparr>) of
        (result, st1) \<Rightarrow>
          download_each cfg e archive_dir with_media urls
            (case result of None \<Rightarrow> results | Some r \<Rightarrow> results @ [r])
            (st1\<lparr>request_count := Suc (request_count st1)\<rparr>))"

text \<open>The files \<open>download_all\<close> writes once the loop is over.\<close>

definition write_reports :: "config \<Rightarrow> env \<Rightarrow> string \<Rightarrow> nat \<Rightarrow> run_state \<Rightarrow> run_state" where
  "write_reports cfg e archive_dir successful st =
     (let report_dir = path_join archive_dir ''Reports'';
          logs_dir = path_join archive_dir ''Logs'';
          st1 = (if generate_status_report cfg \<and> status_codes st \<noteq> []
                 then write_file e st
                        (path_join report_dir
                           (''status_codes_'' @ report_timestamp e @ ''.json''))
                        (json_dump e (StatusReport (request_count st) successful
                                        (status_codes st)))
                 else st);
          st2 = ensure_dir e st1 logs_dir;
          st3 = write_file e st2
                  (path_join logs_dir (''url_list_'' @ session_timestamp e @ ''.json''))
                  (json_dump e (UrlList (all_urls st2)));
          st4 = (if session_logs st3 \<noteq> []
                 then write_file e st3
                        (path_join logs_dir
                           (''download_log_'' @ session_timestamp e @ ''.json''))
                        (json_dump e (SessionLog (session_logs st3)))
                 else st3)
      in if error_logs st4 \<noteq> []
         then write_file e st4
                (path_join logs_dir (''error_log_'' @ session_timestamp e @ ''.json''))
                (json_dump e (ErrorLog (error_logs st4)))
         else st4)"

definition download_all :: "config \<Rightarrow> env \<Rightarrow> string list \<Rightarrow> string \<Rightarrow> bool \<Rightarrow> run_state
    \<Rightarrow> download_result list \<times> run_state" where
  "download_all cfg e urls archive_dir with_media st =
     (let archive_dir' = path_join (sites_root e) (basename archive_dir);
          st1 = ensure_dir e st archive_dir';
          st2 = st1\<lparr>request_count := 0\<rparr>;
          st3 = (if generate_status_report cfg
                 then ensure_dir e st2 (path_join archive_dir' ''Reports'') else st2)
      in (case download_each cfg e archive_dir' with_media urls [] st3 of
            (results, st4) \<Rightarrow>
              (results, write_reports cfg e archive_dir' (length results) st4)))"

section \<open>Measures of a run\<close>


definition answers_ok :: "config \<Rightarrow> env \<Rightarrow> bool" where
  "answers_ok cfg e =
     (\<forall>n u. \<exists>r. server e n (GET u) = Response r \<and> \<not> raises_for_status r
                \<and> status_code r \<notin> set (retry_status_codes cfg))"

section \<open>Later states of a run\<close>

text \<open>
  Nothing a run has stored is lost in a later state: every file and directory is still
  there, and every entry of \<open>downloaded_urls\<close> still has its value.
\<close>

definition grows :: "run_state \<Rightarrow> run_state \<Rightarrow> bool" where
  "grows st st' =
     ((\<forall>k. map_of (files st) k \<noteq> None \<longrightarrow> map_of (files st') k \<noteq> None)
      \<and> dirs st \<subseteq> dirs st'
      \<and> (\<forall>k p. downloaded_urls st k = Some p \<longrightarrow> downloaded_urls st' k = Some p))"

text \<open>
  The states a run can be in after a given one: any number of media downloads, page
  downloads and batches later.
\<close>

inductive reaches :: "config \<Rightarrow> env \<Rightarrow> run_state \<Rightarrow> run_state \<Rightarrow> bool" for cfg e st where
  reaches_now: "reaches cfg e st st"
| reaches_media:
    "reaches cfg e st s \<Longrightarrow>
     reaches cfg e st (snd (download_media cfg e url site_dir base_url s))"
| reaches_page:
    "reaches cfg e st s \<Longrightarrow>
     reaches cfg e st (snd (download_url cfg e url archive_dir with_media s))"
| reaches_batch:
    "reaches cfg e st s \<Longrightarrow>
     reaches cfg e st (snd (download_all cfg e urls archive_dir with_media s))"

section \<open>Inputs used in the worked examples\<close>

definition plain_loc :: "string \<Rightarrow> loc_elem" where
  "plain_loc t =
     \<lparr>loc_text = t, loc_lastmod = None, loc_priority = None, loc_changefreq = None\<rparr>"

text \<open>A sitemap index with two child sitemaps of three URLs each.\<close>

definition two_children :: "string \<Rightarrow> sitemap_doc" where
  "two_children u =
     (if u = ''https://example.com/sitemap.xml''
      then SitemapIndex [Some ''https://example.com/a.xml'', Some ''https://example.com/b.xml'']
      else if u = ''https://example.com/a.xml''
      then UrlSet (map plain_loc [''https://example.com/1'', ''https://example.com/2'',
                                  ''https://example.com/3''])
      else if u = ''https://example.com/b.xml''
      then UrlSet (map plain_loc [''https://example.com/4'', ''https://example.com/5'',
                                  ''https://example.com/6''])
      else RequestFailed)"

text \<open>A site whose start page links to a host that merely begins with the site's host
  name. Both hrefs of the example are absolute URLs, which \<open>urljoin\<close> returns as they
  are.\<close>

definition lookalike_web :: "string \<Rightarrow> page" where
  "lookalike_web u =
     (if u = ''https://example.com/''
      then Html ''Home'' ''No description'' 200 ''text/html''
             [''https://example.com.evil.org/x'']
      else if u = ''https://example.com.evil.org/x''
      then Html ''Elsewhere'' ''No description'' 200 ''text/html'' []
      else VisitFailed)"

definition absolute_hrefs :: urljoin_fn where
  "absolute_hrefs base href = Some href"

text \<open>The downloader's built-in settings, a state at the start of a run with a given
  delay, and an environment around a given server.\<close>

definition default_config :: config where
  "default_config =
     \<lparr>max_retries = 3, retry_status_codes = [429, 500, 502, 503, 504],
      adaptive_rate_limit = True, min_delay = 1/100, max_delay = 5, backoff_factor = 2,
      generate_status_report = True\<rparr>"

definition fresh_state :: "real \<Rightarrow> run_state" where
  "fresh_state delay =
     \<lparr>request_delay = delay, status_codes = [], session_logs = [], error_logs = [],
      all_urls = [], request_count = 0, downloaded_urls = Map.empty,
      media_download_info = [], files = [], dirs = {}, requests = []\<rparr>"

definition ok_response :: "string \<Rightarrow> string \<Rightarrow> response" where
  "ok_response ctype b =
     \<lparr>status_code = 200, content_type = ctype, body = b, error_text = [],
      content_length = NoLength, stream_error = False\<rparr>"

definition error_response :: "int \<Rightarrow> string \<Rightarrow> response" where
  "error_response code msg =
     \<lparr>status_code = code, content_type = ''text/html'', body = [], error_text = msg,
      content_length = NoLength, stream_error = False\<rparr>"

definition env_of :: "(nat \<Rightarrow> request \<Rightarrow> http_outcome) \<Rightarrow> (string \<Rightarrow> string \<Rightarrow> string list)
    \<Rightarrow> env" where
  "env_of srv media =
     \<lparr>server = srv, cwd = ''/work'', json_dump = (\<lambda>d. ''{}''),
      extract_media_urls = media, hash_str = (\<lambda>u. ''0''),
      md5_hex8 = (\<lambda>u. ''00000000''), dir_size = (\<lambda>p. 4096),
      sites_root = ''/work/Sites'', session_timestamp = ''20250101_000000'',
      report_timestamp = ''20250101000000''\<rparr>"

definition no_media :: "string \<Rightarrow> string \<Rightarrow> string list" where
  "no_media html base_url = []"

text \<open>A server that answers the first request of the run with status 503 and every
  later one with a page; and one whose first answer is an exception that carries the
  same status.\<close>

definition busy_then_ok :: "nat \<Rightarrow> request \<Rightarrow> http_outcome" where
  "busy_then_ok n rq =
     (if n = 0
      then Response (error_response 503
             ''503 Server Error: Service Unavailable for url: https://example.com/'')
      else Response (ok_response ''text/html'' ''<html></html>''))"

definition raised_then_ok :: "nat \<Rightarrow> request \<Rightarrow> http_outcome" where
  "raised_then_ok n rq =
     (if n = 0
      then RequestException (Some 503)
             ''503 Server Error: Service Unavailable for url: https://example.com/''
      else Response (ok_response ''text/html'' ''<html></html>''))"

text \<open>A server that always answers with a page, and the state of a fresh run that
  starts on a disk where the page of \<open>https://example.com/\<close> is already stored.\<close>

definition always_ok :: "nat \<Rightarrow> request \<Rightarrow> http_outcome" where
  "always_ok n rq = Response (ok_response ''text/html'' ''<html></html>'')"

definition mirrored_state :: run_state where
  "mirrored_state =
     (fresh_state (3/2))
       \<lparr>files := [(''/work/Sites/example/HTML/example_com_index.html'', ''<html>old</html>'')]\<rparr>"

text \<open>The same disk with the directories above the page file, and neither \<open>JSON\<close> nor
  \<open>Logs\<close>.\<close>

definition mirrored_site :: run_state where
  "mirrored_site = mirrored_state\<lparr>dirs := set (dir_chain ''/work/Sites/example/HTML'')\<rparr>"

text \<open>A server of images, one of other images, a server whose first four answers are
  503; and the states after an image and then a style sheet were fetched for a page.\<close>

definition png_server :: "nat \<Rightarrow> request \<Rightarrow> http_outcome" where
  "png_server n rq = Response (ok_response ''image/png'' ''PNG'')"

definition gif_server :: "nat \<Rightarrow> request \<Rightarrow> http_outcome" where
  "gif_server n rq = Response (ok_response ''image/gif'' ''GIF89a'')"

definition flaky_server :: "nat \<Rightarrow> request \<Rightarrow> http_outcome" where
  "flaky_server n rq =
     (if n < 4
      then Response (error_response 503
             ''503 Server Error: Service Unavailable for url: https://example.com/img/logo.png'')
      else Response (ok_response ''image/png'' ''PNG''))"

definition logo_fetched :: run_state where
  "logo_fetched =
     snd (download_media default_config (env_of png_server no_media)
            ''https://example.com/img/logo.png?v=1'' ''/work/Sites/example''
            ''https://example.com/a.html'' (fresh_state (3/2)))"

definition style_fetched :: run_state where
  "style_fetched =
     snd (download_media default_config (env_of png_server no_media)
            ''https://example.com/css/site.css'' ''/work/Sites/example''
            ''https://example.com/a.html'' logo_fetched)"





section \<open>Sitemap discovery and the page cap\<close>

text \<open>
  C1. For a sitemap index with two child sitemaps of three URLs each and
  \<open>max_pages = 4\<close>, discovery is claimed to stop after four URLs, the cap being checked
  before each recursive call. The code does neither. As the module stands, reading
  \<open>url_elem.getparent\<close> on an ElementTree element raises \<open>AttributeError\<close> at the first
  URL of each child, the handler returns the empty list, and the index yields no URL at
  all. With an element class that has \<open>getparent\<close>, each child is crawled with the full
  cap and the total is compared with the cap only after the child's URLs were added:
  six URLs come back.
\<close>

theorem crawl_sitemap_two_children_cap_4:
  "crawl_sitemap (Suc (Suc depth)) ElementTree two_children 4
     ''https://example.com/sitemap.xml'' = []
   \<and> length (crawl_sitemap (Suc (Suc depth)) WithGetparent two_children 4
               ''https://example.com/sitemap.xml'') = 6"
  by code_simp

section \<open>Recursive crawl and the domain filter\<close>

text \<open>
  C2. The crawl is claimed never to enqueue a URL of another domain. The filter is a
  prefix test against \<open>scheme://host\<close> of the start URL, so a host that begins with the
  start host passes: from \<open>https://example.com/\<close> the link to
  \<open>https://example.com.evil.org/x\<close> is put into the queue and the page is crawled.
\<close>

theorem crawl_enqueues_lookalike_host:
  "enqueue_links absolute_hrefs ''https://example.com'' ''https://example.com/''
     [''https://example.com/''] [''https://example.com.evil.org/x''] []
     = [''https://example.com.evil.org/x'']
   \<and> map info_url (crawl absolute_hrefs lookalike_web 5 ''https://example.com/'')
     = [''https://example.com/'', ''https://example.com.evil.org/x'']
   \<and> url_netloc (urlparse ''https://example.com/'') = ''example.com''
   \<and> url_netloc (urlparse ''https://example.com.evil.org/x'') = ''example.com.evil.org''"
  by code_simp

section \<open>Link rewriting\<close>

text \<open>
  C9. A link whose target is missing from \<open>pages_map\<close> is claimed to be reported and to
  stay byte for byte as it was. It is reported, but it does not always stay: after
  replacing a link the loop adds the length difference to the end position of every
  link that starts earlier, although the text before the replacement has not moved. In
  \<open>[A](/a)[B](/zz)[C](/c)\<close>, with \<open>/a\<close> and \<open>/c\<close> mapped and \<open>/zz\<close> not, replacing
  \<open>/c\<close> stretches the span of \<open>/a\<close> over the broken link, and the next replacement
  overwrites \<open>)[B](/\<close>.
\<close>

theorem broken_link_overwritten:
  "rewrite_pass [''/a'' \<mapsto> ''pages/alpha.md'', ''/c'' \<mapsto> ''pages/gamma.md'']
     ''/srv/content'' [(''pages/doc.md'', ''[A](/a)[B](/zz)[C](/c)'')]
   = \<lparr>res_files = [(''pages/doc.md'', ''[A](alpha.mdzz)[C](gamma.md)'')],
      fixed_links =
        [\<lparr>fixed_file = ''pages/doc.md'', fixed_from = ''/c'', fixed_to = ''gamma.md'',
          fixed_text = ''C''\<rparr>,
         \<lparr>fixed_file = ''pages/doc.md'', fixed_from = ''/a'', fixed_to = ''alpha.md'',
          fixed_text = ''A''\<rparr>],
      broken_links =
        [\<lparr>broken_file = ''pages/doc.md'', broken_url = ''/zz'', broken_text = ''B''\<rparr>]\<rparr>"
  by code_simp

section \<open>Facts about the retry loop\<close>

lemma request_delay_send: "request_delay (snd (send e rq st)) = request_delay st"
  by (simp add: send_def)

lemma request_delay_ensure_dir: "request_delay (ensure_dir e st p) = request_delay st"
  by (simp add: ensure_dir_def)

lemma request_delay_write_file: "request_delay (write_file e st p d) = request_delay st"
  by (simp add: write_file_def)

lemma request_delay_count_status: "request_delay (count_status c st) = request_delay st"
  by (simp add: count_status_def)

lemmas request_delay_basic =
  request_delay_send request_delay_ensure_dir request_delay_write_file request_delay_count_status

lemma request_delay_is_same_file:
  "request_delay (snd (is_same_file e url fp st)) = request_delay st"
  by (simp add: is_same_file_def send_def Let_def
           split: http_outcome.splits length_header.splits option.splits)

lemma request_delay_media_fetch:
  "request_delay (snd (media_fetch cfg e url fp retries st)) = request_delay st"
proof (induction cfg e url fp retries st rule: media_fetch.induct)
  case (1 cfg e url fp retries st)
  show ?case
    apply (subst media_fetch.simps)
    using 1
    by (simp add: send_def write_file_def Let_def split: http_outcome.splits)
qed

lemma request_delay_download_media:
  "request_delay (snd (download_media cfg e url site_dir base st)) = request_delay st"
  by (simp add: download_media_def Let_def split_beta request_delay_media_fetch
                request_delay_is_same_file request_delay_basic
           split: option.splits bool.splits)

lemma request_delay_download_media_list:
  "request_delay (snd (download_media_list cfg e site_dir base urls acc st)) = request_delay st"
proof (induction urls arbitrary: acc st)
  case Nil
  show ?case by simp
next
  case (Cons u us)
  have "request_delay (snd (download_media cfg e u site_dir base st)) = request_delay st"
    by (rule request_delay_download_media)
  then show ?case
    using Cons by (cases "download_media cfg e u site_dir base st") (auto split: option.splits)
qed

lemma request_delay_download_all_media:
  "request_delay (snd (download_all_media cfg e html base site_dir st)) = request_delay st"
  by (simp add: download_all_media_def Let_def split_beta request_delay_download_media_list)

lemma request_delay_save_page:
  "request_delay (snd (save_page cfg e url dir wm r st)) = request_delay st"
  by (simp add: save_page_def Let_def split_beta request_delay_download_all_media
                request_delay_basic)


lemma penalize_bounds:
  assumes "1 \<le> backoff_factor cfg" "0 \<le> request_delay st" "request_delay st \<le> max_delay cfg"
  shows "request_delay st \<le> request_delay (penalize cfg st)"
    and "request_delay (penalize cfg st) \<le> max_delay cfg"
proof -
  have "request_delay st * 1 \<le> request_delay st * backoff_factor cfg"
    using assms(1,2) by (rule mult_left_mono)
  then show "request_delay st \<le> request_delay (penalize cfg st)"
    using assms(3) by (simp add: penalize_def)
  show "request_delay (penalize cfg st) \<le> max_delay cfg"
    by (simp add: penalize_def)
qed

lemma on_retry_status_bounds:
  assumes "1 \<le> backoff_factor cfg" "0 \<le> request_delay st" "request_delay st \<le> max_delay cfg"
  shows "request_delay st \<le> request_delay (on_retry_status cfg st)"
    and "request_delay (on_retry_status cfg st) \<le> max_delay cfg"
  using penalize_bounds [OF assms] assms(3) by (simp_all add: on_retry_status_def)

lemma on_exception_bounds:
  assumes "1 \<le> backoff_factor cfg" "0 \<le> request_delay st" "request_delay st \<le> max_delay cfg"
  shows "request_delay st \<le> request_delay (on_exception cfg url n status msg st)"
    and "request_delay (on_exception cfg url n status msg st) \<le> max_delay cfg"
proof -
  let ?st1 = "case status of None \<Rightarrow> st | Some code \<Rightarrow> count_status code st"
  have same: "request_delay ?st1 = request_delay st"
    by (simp add: request_delay_count_status split: option.splits)
  have b: "request_delay ?st1 \<le> request_delay (penalize cfg ?st1)"
          "request_delay (penalize cfg ?st1) \<le> max_delay cfg"
    using penalize_bounds [of cfg ?st1] assms same by simp_all
  show "request_delay st \<le> request_delay (on_exception cfg url n status msg st)"
    using b same by (simp add: on_exception_def Let_def)
  show "request_delay (on_exception cfg url n status msg st) \<le> max_delay cfg"
    using b same assms(3) by (simp add: on_exception_def Let_def)
qed


lemma loop_stop:
  "\<not> int retries \<le> max_retries cfg \<Longrightarrow>
   download_url_loop cfg e url dir wm retries st = (None, st)"
  by (subst download_url_loop.simps) simp

lemma loop_exception:
  "int retries \<le> max_retries cfg \<Longrightarrow>
   fst (send e (GET url) st) = RequestException status msg \<Longrightarrow>
   download_url_loop cfg e url dir wm retries st =
     (if int (Suc retries) \<le> max_retries cfg
      then download_url_loop cfg e url dir wm (Suc retries)
             (on_exception cfg url (Suc retries) status msg (snd (send e (GET url) st)))
      else (None, on_exception cfg url (Suc retries) status msg (snd (send e (GET url) st))))"
  by (subst download_url_loop.simps) (simp add: split_beta Let_def)

lemma loop_retry_status:
  "int retries < max_retries cfg \<Longrightarrow>
   fst (send e (GET url) st) = Response r \<Longrightarrow>
   status_code r \<in> set (retry_status_codes cfg) \<Longrightarrow>
   download_url_loop cfg e url dir wm retries st =
     download_url_loop cfg e url dir wm (Suc retries)
       (on_retry_status cfg (count_status (status_code r) (snd (send e (GET url) st))))"
  by (subst download_url_loop.simps) (simp add: split_beta Let_def)

lemma loop_error_status:
  "int retries \<le> max_retries cfg \<Longrightarrow>
   fst (send e (GET url) st) = Response r \<Longrightarrow>
   \<not> (status_code r \<in> set (retry_status_codes cfg) \<and> int retries < max_retries cfg) \<Longrightarrow>
   raises_for_status r \<Longrightarrow>
   download_url_loop cfg e url dir wm retries st =
     (if int (Suc retries) \<le> max_retries cfg
      then download_url_loop cfg e url dir wm (Suc retries)
             (on_exception cfg url (Suc retries) (Some (status_code r)) (error_text r)
                (count_status (status_code r) (snd (send e (GET url) st))))
      else (None, on_exception cfg url (Suc retries) (Some (status_code r)) (error_text r)
                (count_status (status_code r) (snd (send e (GET url) st)))))"
  by (subst download_url_loop.simps) (auto simp add: split_beta Let_def)

lemma loop_save:
  "int retries \<le> max_retries cfg \<Longrightarrow>
   fst (send e (GET url) st) = Response r \<Longrightarrow>
   \<not> (status_code r \<in> set (retry_status_codes cfg) \<and> int retries < max_retries cfg) \<Longrightarrow>
   \<not> raises_for_status r \<Longrightarrow>
   download_url_loop cfg e url dir wm retries st =
     save_page cfg e url dir wm r (count_status (status_code r) (snd (send e (GET url) st)))"
  by (subst download_url_loop.simps) (auto simp add: split_beta Let_def)

text \<open>An invariant of the retry loop: \<open>P\<close> holds of the state before each attempt,
  \<open>Q\<close> of the result and the state the loop ends with.\<close>

lemma download_url_loop_rule:
  assumes raised: "\<And>s n status msg. P s \<Longrightarrow>
        fst (send e (GET url) s) = RequestException status msg \<Longrightarrow>
        P (on_exception cfg url n status msg (snd (send e (GET url) s)))"
    and retried: "\<And>s r. P s \<Longrightarrow> fst (send e (GET url) s) = Response r \<Longrightarrow>
        P (on_retry_status cfg (count_status (status_code r) (snd (send e (GET url) s))))"
    and failed: "\<And>s n r. P s \<Longrightarrow> fst (send e (GET url) s) = Response r \<Longrightarrow>
        P (on_exception cfg url n (Some (status_code r)) (error_text r)
             (count_status (status_code r) (snd (send e (GET url) s))))"
    and gave_up: "\<And>s. P s \<Longrightarrow> Q None s"
    and saved: "\<And>s r. P s \<Longrightarrow> fst (send e (GET url) s) = Response r \<Longrightarrow>
        Q (fst (save_page cfg e url dir wm r
                  (count_status (status_code r) (snd (send e (GET url) s)))))
          (snd (save_page cfg e url dir wm r
                  (count_status (status_code r) (snd (send e (GET url) s)))))"
  shows "P st \<Longrightarrow> Q (fst (download_url_loop cfg e url dir wm retries st))
                     (snd (download_url_loop cfg e url dir wm retries st))"
proof (induction "nat (max_retries cfg + 1 - int retries)" arbitrary: retries st)
  case 0
  then have "\<not> int retries \<le> max_retries cfg" by simp
  then show ?case using gave_up [OF \<open>P st\<close>] by (simp add: loop_stop)
next
  case (Suc n)
  then have more: "int retries \<le> max_retries cfg" by simp
  have next_n: "n = nat (max_retries cfg + 1 - int (Suc retries))"
    using Suc.hyps(2) by simp
  let ?st1 = "snd (send e (GET url) st)"
  show ?case
  proof (cases "fst (send e (GET url) st)")
    case (RequestException status msg)
    let ?st2 = "on_exception cfg url (Suc retries) status msg ?st1"
    have p2: "P ?st2" using raised [OF \<open>P st\<close> RequestException] .
    show ?thesis
      using Suc.hyps(1) [OF next_n p2] gave_up [OF p2]
      by (simp add: loop_exception [OF more RequestException])
  next
    case (Response r)
    let ?st2 = "count_status (status_code r) ?st1"
    show ?thesis
    proof (cases "status_code r \<in> set (retry_status_codes cfg) \<and> int retries < max_retries cfg")
      case True
      have p3: "P (on_retry_status cfg ?st2)" using retried [OF \<open>P st\<close> Response] .
      show ?thesis
        using Suc.hyps(1) [OF next_n p3] True
        by (simp add: loop_retry_status [OF _ Response])
    next
      case noretry: False
      show ?thesis
      proof (cases "raises_for_status r")
        case True
        let ?st3 = "on_exception cfg url (Suc retries) (Some (status_code r)) (error_text r) ?st2"
        have p3: "P ?st3" using failed [OF \<open>P st\<close> Response] .
        show ?thesis
          using Suc.hyps(1) [OF next_n p3] gave_up [OF p3]
          by (simp add: loop_error_status [OF more Response noretry True])
      next
        case False
        show ?thesis
          using saved [OF \<open>P st\<close> Response]
          by (simp add: loop_save [OF more Response noretry False])
      qed
    qed
  qed
qed

lemma download_url_delay:
  assumes f: "1 \<le> backoff_factor cfg"
    and lo: "0 \<le> request_delay st" and hi: "request_delay st \<le> max_delay cfg"
  shows "request_delay st \<le> request_delay (snd (download_url cfg e url dir wm st))
         \<and> request_delay (snd (download_url cfg e url dir wm st)) \<le> max_delay cfg"
proof -
  let ?P = "\<lambda>s::run_state. request_delay st \<le> request_delay s \<and> request_delay s \<le> max_delay cfg"
  have "?P (snd (download_url_loop cfg e url dir wm 0 st))"
  proof (rule download_url_loop_rule [where P = ?P and Q = "\<lambda>res. ?P"])
    show "?P st" using hi by simp
  next
    fix s n status msg assume p: "?P s"
    let ?s1 = "snd (send e (GET url) s)"
    have "0 \<le> request_delay ?s1" "request_delay ?s1 \<le> max_delay cfg"
      using p lo by (simp_all add: request_delay_send)
    then show "?P (on_exception cfg url n status msg ?s1)"
      using on_exception_bounds [of cfg ?s1 url n status msg] f p
      by (simp add: request_delay_send)
  next
    fix s and r :: response assume p: "?P s"
    let ?s2 = "count_status (status_code r) (snd (send e (GET url) s))"
    have "0 \<le> request_delay ?s2" "request_delay ?s2 \<le> max_delay cfg"
      using p lo by (simp_all add: request_delay_send request_delay_count_status)
    then show "?P (on_retry_status cfg ?s2)"
      using on_retry_status_bounds [of cfg ?s2] f p
      by (simp add: request_delay_send request_delay_count_status)
  next
    fix s n and r :: response assume p: "?P s"
    let ?s2 = "count_status (status_code r) (snd (send e (GET url) s))"
    have "0 \<le> request_delay ?s2" "request_delay ?s2 \<le> max_delay cfg"
      using p lo by (simp_all add: request_delay_send request_delay_count_status)
    then show "?P (on_exception cfg url n (Some (status_code r)) (error_text r) ?s2)"
      using on_exception_bounds [of cfg ?s2 url n "Some (status_code r)" "error_text r"] f p
      by (simp add: request_delay_send request_delay_count_status)
  next
    fix s assume "?P s"
    then show "?P s" .
  next
    fix s and r :: response assume "?P s"
    then show "?P (snd (save_page cfg e url dir wm r
                     (count_status (status_code r) (snd (send e (GET url) s)))))"
      by (simp add: request_delay_save_page request_delay_send request_delay_count_status)
  qed
  then show ?thesis by (simp add: download_url_def)
qed

lemma download_each_delay:
  assumes f: "1 \<le> backoff_factor cfg"
  shows "0 \<le> request_delay st \<Longrightarrow> request_delay st \<le> max_delay cfg \<Longrightarrow>
         request_delay st \<le> request_delay (snd (download_each cfg e dir wm urls rs st))
         \<and> request_delay (snd (download_each cfg e dir wm urls rs st)) \<le> max_delay cfg"
proof (induction urls arbitrary: rs st)
  case Nil
  then show ?case by simp
next
  case (Cons u us)
  let ?st0 = "st\<lparr>all_urls := all_urls st @ [u]\<rparr>"
  let ?run = "download_url cfg e u dir wm ?st0"
  let ?st1 = "(snd ?run)\<lparr>request_count := Suc (request_count (snd ?run))\<rparr>"
  have one: "request_delay st \<le> request_delay (snd ?run)"
            "request_delay (snd ?run) \<le> max_delay cfg"
    using download_url_delay [OF f, of ?st0 e u dir wm] Cons.prems by simp_all
  have rest: "request_delay ?st1 \<le> request_delay (snd (download_each cfg e dir wm us rs' ?st1))
      \<and> request_delay (snd (download_each cfg e dir wm us rs' ?st1)) \<le> max_delay cfg" for rs'
    using Cons.IH [of ?st1 rs'] one Cons.prems by simp
  show ?case
    using one rest by (simp add: split_beta) (meson order_trans)
qed

section \<open>The delay between requests\<close>

text \<open>
  C4, as stated: after any sequence of retryable responses the delay has never gone
  down and never exceeds \<open>max_delay\<close>. Started with \<open>--delay 10\<close> and the built-in
  \<open>max_delay\<close> of 5, the first retryable response sets the delay to
  \<open>min (10 * 2) 5 = 5\<close>: the delay goes down.
\<close>

theorem delay_lowered_to_max_delay:
  "request_delay (fresh_state 10) = 10
   \<and> request_delay (snd (download_url default_config (env_of busy_then_ok no_media)
        ''https://example.com/'' ''/work/Sites/example'' False (fresh_state 10))) = 5"
  by code_simp

text \<open>
  C4, amended: when the delay starts between 0 and \<open>max_delay\<close> and the backoff factor
  is at least 1, no step of a run lowers the delay or lifts it above \<open>max_delay\<close>:
  neither a retryable response, nor the download of one URL whatever the server
  answers, nor a whole batch. Nothing in the run brings a raised delay down again.
\<close>

theorem backoff_delay_never_lowered:
  assumes "1 \<le> backoff_factor cfg"
    and "0 \<le> request_delay st" and "request_delay st \<le> max_delay cfg"
  shows "request_delay st \<le> request_delay (on_retry_status cfg st)
         \<and> request_delay (on_retry_status cfg st) \<le> max_delay cfg
         \<and> request_delay st \<le> request_delay (snd (download_url cfg e url dir wm st))
         \<and> request_delay (snd (download_url cfg e url dir wm st)) \<le> max_delay cfg
         \<and> request_delay st \<le> request_delay (snd (download_each cfg e dir wm urls rs st))
         \<and> request_delay (snd (download_each cfg e dir wm urls rs st)) \<le> max_delay cfg"
  using on_retry_status_bounds [OF assms] download_url_delay [OF assms]
    download_each_delay [OF assms] by simp

theorem backoff_delay_never_lowered_witness:
  "1 \<le> backoff_factor default_config
   \<and> 0 \<le> request_delay (fresh_state (3/2))
   \<and> request_delay (fresh_state (3/2)) \<le> max_delay default_config
   \<and> request_delay (fresh_state (3/2))
       \<le> request_delay (snd (download_url default_config (env_of busy_then_ok no_media)
            ''https://example.com/'' ''/work/Sites/example'' False (fresh_state (3/2))))
   \<and> request_delay (snd (download_url default_config (env_of busy_then_ok no_media)
            ''https://example.com/'' ''/work/Sites/example'' False (fresh_state (3/2)))) = 3"
proof -
  have h1: "1 \<le> backoff_factor default_config" by (simp add: default_config_def)
  have h2: "0 \<le> request_delay (fresh_state (3/2))" by (simp add: fresh_state_def)
  have h3: "request_delay (fresh_state (3/2)) \<le> max_delay default_config"
    by (simp add: fresh_state_def default_config_def)
  have v: "request_delay (snd (download_url default_config (env_of busy_then_ok no_media)
            ''https://example.com/'' ''/work/Sites/example'' False (fresh_state (3/2)))) = 3"
    by code_simp
  show ?thesis
    using h1 h2 h3 v
      backoff_delay_never_lowered [OF h1 h2 h3, of "env_of busy_then_ok no_media"
        "''https://example.com/''" "''/work/Sites/example''" False "[]" "[]"]
    by simp
qed

section \<open>Transport errors that carry a status\<close>

text \<open>
  C5, as stated: a transport error that carries an HTTP status is retried and penalised
  exactly like the same status received as a response. With the built-in settings, a
  first answer of 503 doubles the delay from 1.5 to 3 when it arrives as a response, and
  leaves it at 1.5 when it arrives as an exception carrying 503.
\<close>

theorem transport_error_503_not_penalized:
  "request_delay (snd (download_url default_config (env_of busy_then_ok no_media)
      ''https://example.com/'' ''/work/Sites/example'' False (fresh_state (3/2)))) = 3
   \<and> request_delay (snd (download_url default_config (env_of raised_then_ok no_media)
      ''https://example.com/'' ''/work/Sites/example'' False (fresh_state (3/2)))) = 3/2"
  by code_simp

text \<open>
  C5, amended: while attempts remain, a transport error that carries a status and a
  response with a retry status both lead to the next attempt. The response raises the
  delay (when adaptive rate limiting is on). The transport error raises it in the same
  way only when the carried status is 429 or its message mentions \<open>rate\<close> together
  with \<open>limit\<close> or \<open>exceed\<close>; for any other carried status, 500, 502, 503 and 504
  included, the delay stays as it is.
\<close>

theorem transport_error_retry_and_penalty:
  assumes more: "int retries < max_retries cfg"
  shows "(server e (length (requests st)) (GET url) = RequestException (Some code) msg \<longrightarrow>
            download_url_loop cfg e url dir wm retries st
              = download_url_loop cfg e url dir wm (Suc retries)
                  (on_exception cfg url (Suc retries) (Some code) msg (snd (send e (GET url) st)))
            \<and> request_delay (on_exception cfg url (Suc retries) (Some code) msg
                               (snd (send e (GET url) st)))
              = (if adaptive_rate_limit cfg
                    \<and> (code = 429
                       \<or> (contains (lower msg) ''rate''
                          \<and> (contains (lower msg) ''limit'' \<or> contains (lower msg) ''exceed'')))
                 then min (request_delay st * backoff_factor cfg) (max_delay cfg)
                 else request_delay st))
       \<and> (server e (length (requests st)) (GET url) = Response r
            \<and> status_code r \<in> set (retry_status_codes cfg) \<longrightarrow>
            download_url_loop cfg e url dir wm retries st
              = download_url_loop cfg e url dir wm (Suc retries)
                  (on_retry_status cfg (count_status (status_code r) (snd (send e (GET url) st))))
            \<and> request_delay (on_retry_status cfg
                               (count_status (status_code r) (snd (send e (GET url) st))))
              = (if adaptive_rate_limit cfg
                 then min (request_delay st * backoff_factor cfg) (max_delay cfg)
                 else request_delay st))"
proof (intro conjI impI)
  assume a: "server e (length (requests st)) (GET url) = RequestException (Some code) msg"
  then have f: "fst (send e (GET url) st) = RequestException (Some code) msg"
    by (simp add: send_def)
  from more have le: "int retries \<le> max_retries cfg" and nx: "int (Suc retries) \<le> max_retries cfg"
    by simp_all
  show "download_url_loop cfg e url dir wm retries st
          = download_url_loop cfg e url dir wm (Suc retries)
              (on_exception cfg url (Suc retries) (Some code) msg (snd (send e (GET url) st)))"
    using loop_exception [OF le f, of dir wm] nx by simp
  show "request_delay (on_exception cfg url (Suc retries) (Some code) msg
                               (snd (send e (GET url) st)))
              = (if adaptive_rate_limit cfg
                    \<and> (code = 429
                       \<or> (contains (lower msg) ''rate''
                          \<and> (contains (lower msg) ''limit'' \<or> contains (lower msg) ''exceed'')))
                 then min (request_delay st * backoff_factor cfg) (max_delay cfg)
                 else request_delay st)"
    by (auto simp add: on_exception_def is_rate_limit_def penalize_def count_status_def send_def Let_def)
next
  assume a: "server e (length (requests st)) (GET url) = Response r
             \<and> status_code r \<in> set (retry_status_codes cfg)"
  then have f: "fst (send e (GET url) st) = Response r" by (simp add: send_def)
  show "download_url_loop cfg e url dir wm retries st
          = download_url_loop cfg e url dir wm (Suc retries)
              (on_retry_status cfg (count_status (status_code r) (snd (send e (GET url) st))))"
    using loop_retry_status [OF more f, of dir wm] a by simp
  show "request_delay (on_retry_status cfg
                               (count_status (status_code r) (snd (send e (GET url) st))))
              = (if adaptive_rate_limit cfg
                 then min (request_delay st * backoff_factor cfg) (max_delay cfg)
                 else request_delay st)"
    by (simp add: on_retry_status_def penalize_def count_status_def send_def)
qed

theorem transport_error_retry_and_penalty_witness:
  "int 0 < max_retries default_config
   \<and> server (env_of raised_then_ok no_media) (length (requests (fresh_state (3/2))))
        (GET ''https://example.com/'')
      = RequestException (Some 503)
          ''503 Server Error: Service Unavailable for url: https://example.com/''
   \<and> request_delay (on_exception default_config ''https://example.com/'' (Suc 0) (Some 503)
         ''503 Server Error: Service Unavailable for url: https://example.com/''
         (snd (send (env_of raised_then_ok no_media) (GET ''https://example.com/'')
                (fresh_state (3/2))))) = 3/2
   \<and> server (env_of busy_then_ok no_media) (length (requests (fresh_state (3/2))))
        (GET ''https://example.com/'')
      = Response (error_response 503
          ''503 Server Error: Service Unavailable for url: https://example.com/'')
   \<and> status_code (error_response 503
          ''503 Server Error: Service Unavailable for url: https://example.com/'')
      \<in> set (retry_status_codes default_config)
   \<and> request_delay (on_retry_status default_config
         (count_status 503
            (snd (send (env_of busy_then_ok no_media) (GET ''https://example.com/'')
                   (fresh_state (3/2)))))) = 3"
proof -
  let ?msg = "''503 Server Error: Service Unavailable for url: https://example.com/''"
  have h: "int 0 < max_retries default_config" by (simp add: default_config_def)
  have a1: "server (env_of raised_then_ok no_media) (length (requests (fresh_state (3/2))))
              (GET ''https://example.com/'') = RequestException (Some 503) ?msg"
    by (simp add: env_of_def raised_then_ok_def fresh_state_def)
  have a2: "server (env_of busy_then_ok no_media) (length (requests (fresh_state (3/2))))
              (GET ''https://example.com/'') = Response (error_response 503 ?msg)"
    by (simp add: env_of_def busy_then_ok_def fresh_state_def)
  have a3: "status_code (error_response 503 ?msg) \<in> set (retry_status_codes default_config)"
    by (simp add: error_response_def default_config_def)
  have c: "\<not> contains (lower ?msg) ''rate''" by code_simp
  have s: "status_code (error_response 503 ?msg) = 503" by (simp add: error_response_def)
  have d: "request_delay (fresh_state (3/2)) = 3/2" "backoff_factor default_config = 2"
     "max_delay default_config = 5" "adaptive_rate_limit default_config"
    by (simp_all add: fresh_state_def default_config_def)
  show ?thesis
    using h a1 a2 a3 c s d
      transport_error_retry_and_penalty [OF h, of "env_of raised_then_ok no_media"
        "fresh_state (3/2)" "''https://example.com/''" 503 ?msg "''/work/Sites/example''" False
        "error_response 503 ?msg"]
      transport_error_retry_and_penalty [OF h, of "env_of busy_then_ok no_media"
        "fresh_state (3/2)" "''https://example.com/''" 503 ?msg "''/work/Sites/example''" False
        "error_response 503 ?msg"]
    by simp
qed

section \<open>A page whose file already exists\<close>

lemma path_exists_ensure_dir:
  "path_exists e st p \<Longrightarrow> path_exists e (ensure_dir e st q) p"
  by (auto simp: path_exists_def ensure_dir_def)

lemma files_ensure_dir: "files (ensure_dir e st p) = files st"
  by (simp add: ensure_dir_def)

lemma save_page_existing:
  assumes "path_exists e s (page_file_path dir url)"
  shows "fst (save_page cfg e url dir wm r s)
           = Some (Skipped url (page_file_path dir url) (status_code r))"
    and "files (snd (save_page cfg e url dir wm r s)) = files s"
    and "session_logs (snd (save_page cfg e url dir wm r s)) = session_logs s"
    and "requests (snd (save_page cfg e url dir wm r s)) = requests s"
    and "status_codes (snd (save_page cfg e url dir wm r s)) = status_codes s"
proof -
  let ?html = "path_join dir ''HTML''"
  let ?s1 = "ensure_dir e (ensure_dir e (ensure_dir e s ?html) (path_join dir ''JSON''))
               (path_join dir ''Logs'')"
  let ?s2 = "if strip_char CHR ''/'' (url_path (urlparse url)) \<noteq> []
             then ensure_dir e ?s1 (path_join_all ?html (butlast (page_path_parts url)))
             else ?s1"
  have ex: "path_exists e ?s2 (path_join_all ?html (page_path_parts url))"
    using assms by (simp add: page_file_path_def path_exists_ensure_dir)
  have eq: "save_page cfg e url dir wm r s
              = (Some (Skipped url (page_file_path dir url) (status_code r)), ?s2)"
    using ex unfolding save_page_def Let_def page_file_path_def by (simp only: if_True)
  show "fst (save_page cfg e url dir wm r s)
           = Some (Skipped url (page_file_path dir url) (status_code r))"
    by (simp add: eq)
  show "files (snd (save_page cfg e url dir wm r s)) = files s"
    by (simp add: eq ensure_dir_def)
  show "session_logs (snd (save_page cfg e url dir wm r s)) = session_logs s"
    by (simp add: eq ensure_dir_def)
  show "requests (snd (save_page cfg e url dir wm r s)) = requests s"
    by (simp add: eq ensure_dir_def)
  show "status_codes (snd (save_page cfg e url dir wm r s)) = status_codes s"
    by (simp add: eq ensure_dir_def)
qed


lemma status_count_count_status:
  "status_count (count_status c s) c' = (if c' = c then Suc (status_count s c) else status_count s c')"
  by (simp add: status_count_def count_status_def update_conv')

lemma status_count_on_exception:
  "status_count s c \<le> status_count (on_exception cfg url n status msg s) c"
  by (cases status)
     (simp_all add: on_exception_def Let_def penalize_def status_count_def count_status_def
                    update_conv')

lemma on_exception_frame:
  "files (on_exception cfg url n status msg s) = files s"
  "dirs (on_exception cfg url n status msg s) = dirs s"
  "session_logs (on_exception cfg url n status msg s) = session_logs s"
  "requests (on_exception cfg url n status msg s) = requests s"
  by (cases status; simp add: on_exception_def Let_def penalize_def count_status_def)+

lemma on_retry_status_frame:
  "files (on_retry_status cfg s) = files s"
  "dirs (on_retry_status cfg s) = dirs s"
  "session_logs (on_retry_status cfg s) = session_logs s"
  "requests (on_retry_status cfg s) = requests s"
  "status_codes (on_retry_status cfg s) = status_codes s"
  by (simp_all add: on_retry_status_def penalize_def)

lemma count_status_frame:
  "files (count_status c s) = files s"
  "dirs (count_status c s) = dirs s"
  "session_logs (count_status c s) = session_logs s"
  "requests (count_status c s) = requests s"
  by (simp_all add: count_status_def)

lemma send_frame:
  "files (snd (send e rq s)) = files s"
  "dirs (snd (send e rq s)) = dirs s"
  "session_logs (snd (send e rq s)) = session_logs s"
  "status_codes (snd (send e rq s)) = status_codes s"
  "requests (snd (send e rq s)) = requests s @ [rq]"
  by (simp_all add: send_def)

lemma status_count_cong: "status_codes s = status_codes s' \<Longrightarrow> status_count s c = status_count s' c"
  by (simp add: status_count_def)

lemma download_url_existing:
  assumes present: "path_exists e st (page_file_path archive_dir url)"
  shows "files (snd (download_url cfg e url archive_dir with_media st)) = files st
       \<and> session_logs (snd (download_url cfg e url archive_dir with_media st)) = session_logs st
       \<and> (fst (download_url cfg e url archive_dir with_media st) = None
          \<or> (\<exists>code k.
                fst (download_url cfg e url archive_dir with_media st)
                  = Some (Skipped url (page_file_path archive_dir url) code)
                \<and> requests (snd (download_url cfg e url archive_dir with_media st))
                  = requests st @ replicate (Suc k) (GET url)
                \<and> status_count st code
                  < status_count (snd (download_url cfg e url archive_dir with_media st)) code))"
proof -
  let ?fp = "page_file_path archive_dir url"
  let ?P = "\<lambda>s::run_state. files s = files st \<and> session_logs s = session_logs st
              \<and> dirs s = dirs st
              \<and> (\<exists>k. requests s = requests st @ replicate k (GET url))
              \<and> (\<forall>c. status_count st c \<le> status_count s c)"
  let ?Q = "\<lambda>res (s::run_state). files s = files st \<and> session_logs s = session_logs st
              \<and> (res = None
                 \<or> (\<exists>code k. res = Some (Skipped url ?fp code)
                       \<and> requests s = requests st @ replicate (Suc k) (GET url)
                       \<and> status_count st code < status_count s code))"
  have sent: "\<exists>k. requests (snd (send e (GET url) s)) = requests st @ replicate (Suc k) (GET url)"
    if "\<exists>k. requests s = requests st @ replicate k (GET url)" for s
  proof -
    from that obtain k where "requests s = requests st @ replicate k (GET url)" ..
    then have "requests (snd (send e (GET url) s)) = requests st @ replicate (Suc k) (GET url)"
      by (simp add: send_frame replicate_append_same)
    then show ?thesis ..
  qed
  have "?Q (fst (download_url_loop cfg e url archive_dir with_media 0 st))
           (snd (download_url_loop cfg e url archive_dir with_media 0 st))"
  proof (rule download_url_loop_rule [where P = ?P and Q = ?Q])
    have "requests st = requests st @ replicate 0 (GET url)" by simp
    then show "?P st" by blast
  next
    fix s n status msg assume p: "?P s"
    let ?s1 = "snd (send e (GET url) s)"
    have c: "\<forall>c. status_count st c \<le> status_count (on_exception cfg url n status msg ?s1) c"
    proof
      fix c
      have "status_count st c \<le> status_count s c" using p by simp
      also have "\<dots> = status_count ?s1 c" by (rule status_count_cong) (simp add: send_frame)
      also have "\<dots> \<le> status_count (on_exception cfg url n status msg ?s1) c"
        by (rule status_count_on_exception)
      finally show "status_count st c \<le> status_count (on_exception cfg url n status msg ?s1) c" .
    qed
    have "\<exists>k. requests ?s1 = requests st @ replicate k (GET url)"
      using sent p by blast
    then show "?P (on_exception cfg url n status msg ?s1)"
      using p c by (simp add: on_exception_frame send_frame)
  next
    fix s and r :: response assume p: "?P s"
    let ?s1 = "snd (send e (GET url) s)"
    let ?s2 = "count_status (status_code r) ?s1"
    have c: "\<forall>c. status_count st c \<le> status_count (on_retry_status cfg ?s2) c"
    proof
      fix c
      have "status_count st c \<le> status_count s c" using p by simp
      also have "\<dots> = status_count ?s1 c" by (rule status_count_cong) (simp add: send_frame)
      also have "\<dots> \<le> status_count ?s2 c" by (simp add: status_count_count_status)
      also have "\<dots> = status_count (on_retry_status cfg ?s2) c"
        by (rule status_count_cong) (simp add: on_retry_status_frame)
      finally show "status_count st c \<le> status_count (on_retry_status cfg ?s2) c" .
    qed
    have "\<exists>k. requests ?s1 = requests st @ replicate k (GET url)"
      using sent p by blast
    then show "?P (on_retry_status cfg ?s2)"
      using p c by (simp add: on_retry_status_frame count_status_frame send_frame)
  next
    fix s n and r :: response assume p: "?P s"
    let ?s1 = "snd (send e (GET url) s)"
    let ?s2 = "count_status (status_code r) ?s1"
    let ?s3 = "on_exception cfg url n (Some (status_code r)) (error_text r) ?s2"
    have c: "\<forall>c. status_count st c \<le> status_count ?s3 c"
    proof
      fix c
      have "status_count st c \<le> status_count s c" using p by simp
      also have "\<dots> = status_count ?s1 c" by (rule status_count_cong) (simp add: send_frame)
      also have "\<dots> \<le> status_count ?s2 c" by (simp add: status_count_count_status)
      also have "\<dots> \<le> status_count ?s3 c" by (rule status_count_on_exception)
      finally show "status_count st c \<le> status_count ?s3 c" .
    qed
    have "\<exists>k. requests ?s1 = requests st @ replicate k (GET url)"
      using sent p by blast
    then show "?P ?s3"
      using p c by (simp add: on_exception_frame count_status_frame send_frame)
  next
    fix s assume "?P s"
    then show "?Q None s" by simp
  next
    fix s and r :: response assume p: "?P s"
    let ?s1 = "snd (send e (GET url) s)"
    let ?s2 = "count_status (status_code r) ?s1"
    have ex: "path_exists e ?s2 ?fp"
      using present p by (simp add: path_exists_def count_status_frame send_frame)
    note sp = save_page_existing [OF ex, of cfg with_media r]
    from sent p obtain k where k: "requests ?s1 = requests st @ replicate (Suc k) (GET url)"
      by blast
    have "status_count st (status_code r) \<le> status_count s (status_code r)" using p by simp
    also have "\<dots> = status_count ?s1 (status_code r)"
      by (rule status_count_cong) (simp add: send_frame)
    also have "\<dots> < status_count ?s2 (status_code r)" by (simp add: status_count_count_status)
    also have "\<dots> = status_count (snd (save_page cfg e url archive_dir with_media r ?s2)) (status_code r)"
      by (rule status_count_cong) (simp add: sp)
    finally have lt: "status_count st (status_code r)
        < status_count (snd (save_page cfg e url archive_dir with_media r ?s2)) (status_code r)" .
    have rq: "requests (snd (save_page cfg e url archive_dir with_media r ?s2))
               = requests st @ replicate (Suc k) (GET url)"
      using k by (simp add: sp count_status_frame)
    show "?Q (fst (save_page cfg e url archive_dir with_media r ?s2))
             (snd (save_page cfg e url archive_dir with_media r ?s2))"
      using p lt rq by (simp add: sp count_status_frame send_frame)
  qed
  then show ?thesis by (simp add: download_url_def)
qed

lemma save_page_some: "fst (save_page cfg e url dir wm r s) \<noteq> None"
  by (simp add: save_page_def Let_def split_beta)

lemma ensure_dir_cong:
  assumes "files s = files s'" and "dirs s = dirs s'"
  shows "dirs (ensure_dir e s p) = dirs (ensure_dir e s' p)"
    and "files (ensure_dir e s p) = files (ensure_dir e s' p)"
  using assms by (simp_all add: ensure_dir_def path_exists_def)

lemma save_page_existing_dirs:
  assumes "path_exists e s (page_file_path dir url)"
    and f: "files s = files st" and d: "dirs s = dirs st"
  shows "dirs (snd (save_page cfg e url dir wm r s))
         = dirs (let st1 = ensure_dir e (ensure_dir e (ensure_dir e st (path_join dir ''HTML''))
                                          (path_join dir ''JSON'')) (path_join dir ''Logs'')
                 in if strip_char CHR ''/'' (url_path (urlparse url)) \<noteq> []
                    then ensure_dir e st1 (path_join_all (path_join dir ''HTML'')
                                             (butlast (page_path_parts url)))
                    else st1)"
proof -
  let ?html = "path_join dir ''HTML''"
  let ?c = "\<lambda>s. ensure_dir e (ensure_dir e (ensure_dir e s ?html) (path_join dir ''JSON''))
               (path_join dir ''Logs'')"
  let ?s2 = "if strip_char CHR ''/'' (url_path (urlparse url)) \<noteq> []
             then ensure_dir e (?c s) (path_join_all ?html (butlast (page_path_parts url)))
             else ?c s"
  have ex: "path_exists e ?s2 (path_join_all ?html (page_path_parts url))"
    using assms(1) by (simp add: page_file_path_def path_exists_ensure_dir)
  have eq: "save_page cfg e url dir wm r s
              = (Some (Skipped url (page_file_path dir url) (status_code r)), ?s2)"
    using ex unfolding save_page_def Let_def page_file_path_def by (simp only: if_True)
  note c1 = ensure_dir_cong [OF f d, of e ?html]
  note c2 = ensure_dir_cong [OF c1(2) c1(1), of e "path_join dir ''JSON''"]
  note c3 = ensure_dir_cong [OF c2(2) c2(1), of e "path_join dir ''Logs''"]
  have c: "dirs (?c s) = dirs (?c st)" "files (?c s) = files (?c st)"
    using c3 by simp_all
  have "dirs ?s2 = dirs (if strip_char CHR ''/'' (url_path (urlparse url)) \<noteq> []
             then ensure_dir e (?c st) (path_join_all ?html (butlast (page_path_parts url)))
             else ?c st)"
    using c ensure_dir_cong(1) [OF c(2) c(1)] by simp
  then show ?thesis by (simp add: eq Let_def)
qed

lemma download_url_existing_dirs:
  assumes present: "path_exists e st (page_file_path archive_dir url)"
  shows "(fst (download_url cfg e url archive_dir with_media st) = None
          \<longrightarrow> dirs (snd (download_url cfg e url archive_dir with_media st)) = dirs st)
       \<and> (fst (download_url cfg e url archive_dir with_media st) \<noteq> None
          \<longrightarrow> dirs (snd (download_url cfg e url archive_dir with_media st))
              = dirs (let st1 = ensure_dir e (ensure_dir e (ensure_dir e st
                                   (path_join archive_dir ''HTML''))
                                   (path_join archive_dir ''JSON''))
                                   (path_join archive_dir ''Logs'')
                      in if strip_char CHR ''/'' (url_path (urlparse url)) \<noteq> []
                         then ensure_dir e st1 (path_join_all (path_join archive_dir ''HTML'')
                                                  (butlast (page_path_parts url)))
                         else st1))"
proof -
  let ?fp = "page_file_path archive_dir url"
  let ?D = "dirs (let st1 = ensure_dir e (ensure_dir e (ensure_dir e st
                                   (path_join archive_dir ''HTML''))
                                   (path_join archive_dir ''JSON''))
                                   (path_join archive_dir ''Logs'')
                      in if strip_char CHR ''/'' (url_path (urlparse url)) \<noteq> []
                         then ensure_dir e st1 (path_join_all (path_join archive_dir ''HTML'')
                                                  (butlast (page_path_parts url)))
                         else st1)"
  let ?P = "\<lambda>s::run_state. files s = files st \<and> dirs s = dirs st"
  let ?Q = "\<lambda>(res::download_result option) (s::run_state).
              (res = None \<longrightarrow> dirs s = dirs st) \<and> (res \<noteq> None \<longrightarrow> dirs s = ?D)"
  have "?Q (fst (download_url_loop cfg e url archive_dir with_media 0 st))
           (snd (download_url_loop cfg e url archive_dir with_media 0 st))"
  proof (rule download_url_loop_rule [where P = ?P and Q = ?Q])
    show "?P st" by simp
  next
    fix s n status msg assume p: "?P s"
    then show "?P (on_exception cfg url n status msg (snd (send e (GET url) s)))"
      by (simp add: on_exception_frame send_frame)
  next
    fix s and r :: response assume p: "?P s"
    then show "?P (on_retry_status cfg (count_status (status_code r) (snd (send e (GET url) s))))"
      by (simp add: on_retry_status_frame count_status_frame send_frame)
  next
    fix s n and r :: response assume p: "?P s"
    then show "?P (on_exception cfg url n (Some (status_code r)) (error_text r)
                     (count_status (status_code r) (snd (send e (GET url) s))))"
      by (simp add: on_exception_frame count_status_frame send_frame)
  next
    fix s assume "?P s"
    then show "?Q None s" by simp
  next
    fix s and r :: response assume p: "?P s"
    let ?s2 = "count_status (status_code r) (snd (send e (GET url) s))"
    have fd: "files ?s2 = files st" "dirs ?s2 = dirs st"
      using p by (simp_all add: count_status_frame send_frame)
    have ex: "path_exists e ?s2 ?fp"
      using present fd by (simp add: path_exists_def)
    have "dirs (snd (save_page cfg e url archive_dir with_media r ?s2)) = ?D"
      by (rule save_page_existing_dirs [OF ex fd])
    then show "?Q (fst (save_page cfg e url archive_dir with_media r ?s2))
             (snd (save_page cfg e url archive_dir with_media r ?s2))"
      by (simp add: save_page_some)
  qed
  then show ?thesis by (simp add: download_url_def)
qed

lemma download_url_existing_first:
  assumes present: "path_exists e st (page_file_path dir url)"
    and r: "server e (length (requests st)) (GET url) = Response r"
      "\<not> raises_for_status r" "status_code r \<notin> set (retry_status_codes cfg)"
    and tries: "0 \<le> max_retries cfg"
  shows "fst (download_url cfg e url dir wm st)
           = Some (Skipped url (page_file_path dir url) (status_code r))"
    and "requests (snd (download_url cfg e url dir wm st)) = requests st @ [GET url]"
    and "status_count (snd (download_url cfg e url dir wm st)) (status_code r)
           = Suc (status_count st (status_code r))"
proof -
  have f: "fst (send e (GET url) st) = Response r" using r(1) by (simp add: send_def)
  have le: "int 0 \<le> max_retries cfg" using tries by simp
  have nr: "\<not> (status_code r \<in> set (retry_status_codes cfg) \<and> int 0 < max_retries cfg)"
    using r(3) by simp
  let ?s2 = "count_status (status_code r) (snd (send e (GET url) st))"
  have eq: "download_url_loop cfg e url dir wm 0 st = save_page cfg e url dir wm r ?s2"
    by (rule loop_save [OF le f nr r(2)])
  have ex: "path_exists e ?s2 (page_file_path dir url)"
    using present by (simp add: path_exists_def count_status_frame send_frame)
  note sp = save_page_existing [OF ex, of cfg wm r]
  show "fst (download_url cfg e url dir wm st)
           = Some (Skipped url (page_file_path dir url) (status_code r))"
    using sp(1) by (simp add: download_url_def eq)
  show "requests (snd (download_url cfg e url dir wm st)) = requests st @ [GET url]"
    using sp(4) by (simp add: download_url_def eq count_status_frame send_frame)
  have "status_count (snd (save_page cfg e url dir wm r ?s2)) (status_code r)
          = status_count ?s2 (status_code r)"
    by (rule status_count_cong) (simp add: sp)
  also have "\<dots> = Suc (status_count (snd (send e (GET url) st)) (status_code r))"
    by (simp add: status_count_count_status)
  also have "status_count (snd (send e (GET url) st)) (status_code r) = status_count st (status_code r)"
    by (rule status_count_cong) (simp add: send_frame)
  finally show "status_count (snd (download_url cfg e url dir wm st)) (status_code r)
           = Suc (status_count st (status_code r))"
    by (simp add: download_url_def eq)
qed

text \<open>
  C10, as stated: for a URL whose file exists, the state of the disk is unchanged. The
  directories \<open>HTML\<close>, \<open>JSON\<close> and \<open>Logs\<close> are created, when missing, before the
  existence check: on a disk that holds the page file and the directories above it, the
  URL is skipped and \<open>JSON\<close> and \<open>Logs\<close> are new.
\<close>

theorem existing_file_skip_creates_directories:
  "fst (download_url default_config (env_of always_ok no_media) ''https://example.com/''
          ''/work/Sites/example'' True mirrored_site)
     = Some (Skipped ''https://example.com/''
               ''/work/Sites/example/HTML/example_com_index.html'' 200)
   \<and> dirs mirrored_site
     = {''/work'', ''/work/Sites'', ''/work/Sites/example'', ''/work/Sites/example/HTML''}
   \<and> dirs (snd (download_url default_config (env_of always_ok no_media) ''https://example.com/''
          ''/work/Sites/example'' True mirrored_site))
     = {''/work'', ''/work/Sites'', ''/work/Sites/example'', ''/work/Sites/example/HTML'',
        ''/work/Sites/example/JSON'', ''/work/Sites/example/Logs''}
   \<and> ''/work/Sites/example/JSON'' \<notin> dirs mirrored_site
   \<and> ''/work/Sites/example/Logs'' \<notin> dirs mirrored_site"
proof -
  have a: "fst (download_url default_config (env_of always_ok no_media) ''https://example.com/''
          ''/work/Sites/example'' True mirrored_site)
     = Some (Skipped ''https://example.com/''
               ''/work/Sites/example/HTML/example_com_index.html'' 200)"
    by code_simp
  have b: "dirs mirrored_site
     = {''/work'', ''/work/Sites'', ''/work/Sites/example'', ''/work/Sites/example/HTML''}"
    by code_simp
  have c: "dirs (snd (download_url default_config (env_of always_ok no_media) ''https://example.com/''
          ''/work/Sites/example'' True mirrored_site))
     = {''/work'', ''/work/Sites'', ''/work/Sites/example'', ''/work/Sites/example/HTML'',
        ''/work/Sites/example/JSON'', ''/work/Sites/example/Logs''}"
    by code_simp
  show ?thesis using a b c by simp
qed

text \<open>
  C10, amended: when a file (or directory) already exists at the path a URL is mapped
  to, \<open>_download_url\<close> writes no file, neither content nor metadata, and leaves the
  session log as it is, whatever the server answers. Either every attempt fails, and the
  directories are as before; or the skipped result is returned after at least one GET
  for the URL and nothing but GETs for it, the histogram count of the returned status
  code has grown, and the directories are those of the disk after \<open>HTML\<close>, \<open>JSON\<close>,
  \<open>Logs\<close> and the page's directory were created where missing. When the first answer
  is a response that is neither an error nor a status to retry, the URL is skipped after
  that one GET, and the count of its status code is one higher.
\<close>

theorem existing_file_skipped_after_get:
  assumes present: "path_exists e st (page_file_path archive_dir url)"
  shows "files (snd (download_url cfg e url archive_dir with_media st)) = files st
       \<and> session_logs (snd (download_url cfg e url archive_dir with_media st)) = session_logs st
       \<and> (fst (download_url cfg e url archive_dir with_media st) = None
            \<and> dirs (snd (download_url cfg e url archive_dir with_media st)) = dirs st
          \<or> (\<exists>code k.
                fst (download_url cfg e url archive_dir with_media st)
                  = Some (Skipped url (page_file_path archive_dir url) code)
                \<and> requests (snd (download_url cfg e url archive_dir with_media st))
                  = requests st @ replicate (Suc k) (GET url)
                \<and> status_count st code
                  < status_count (snd (download_url cfg e url archive_dir with_media st)) code
                \<and> dirs (snd (download_url cfg e url archive_dir with_media st))
                  = dirs (let st1 = ensure_dir e (ensure_dir e (ensure_dir e st
                                       (path_join archive_dir ''HTML''))
                                       (path_join archive_dir ''JSON''))
                                       (path_join archive_dir ''Logs'')
                          in if strip_char CHR ''/'' (url_path (urlparse url)) \<noteq> []
                             then ensure_dir e st1
                                    (path_join_all (path_join archive_dir ''HTML'')
                                       (butlast (page_path_parts url)))
                             else st1)))
       \<and> (\<forall>r. server e (length (requests st)) (GET url) = Response r
              \<and> \<not> raises_for_status r \<and> status_code r \<notin> set (retry_status_codes cfg)
              \<and> 0 \<le> max_retries cfg
            \<longrightarrow> fst (download_url cfg e url archive_dir with_media st)
                  = Some (Skipped url (page_file_path archive_dir url) (status_code r))
                \<and> requests (snd (download_url cfg e url archive_dir with_media st))
                  = requests st @ [GET url]
                \<and> status_count (snd (download_url cfg e url archive_dir with_media st))
                     (status_code r)
                  = Suc (status_count st (status_code r)))"
proof -
  note a = download_url_existing [OF present, of cfg with_media]
  note b = download_url_existing_dirs [OF present, of cfg with_media]
  have 1: "files (snd (download_url cfg e url archive_dir with_media st)) = files st"
    and 2: "session_logs (snd (download_url cfg e url archive_dir with_media st)) = session_logs st"
    using a by simp_all
  have 3: "fst (download_url cfg e url archive_dir with_media st) = None
            \<and> dirs (snd (download_url cfg e url archive_dir with_media st)) = dirs st
          \<or> (\<exists>code k.
                fst (download_url cfg e url archive_dir with_media st)
                  = Some (Skipped url (page_file_path archive_dir url) code)
                \<and> requests (snd (download_url cfg e url archive_dir with_media st))
                  = requests st @ replicate (Suc k) (GET url)
                \<and> status_count st code
                  < status_count (snd (download_url cfg e url archive_dir with_media st)) code
                \<and> dirs (snd (download_url cfg e url archive_dir with_media st))
                  = dirs (let st1 = ensure_dir e (ensure_dir e (ensure_dir e st
                                       (path_join archive_dir ''HTML''))
                                       (path_join archive_dir ''JSON''))
                                       (path_join archive_dir ''Logs'')
                          in if strip_char CHR ''/'' (url_path (urlparse url)) \<noteq> []
                             then ensure_dir e st1
                                    (path_join_all (path_join archive_dir ''HTML'')
                                       (butlast (page_path_parts url)))
                             else st1))"
  proof (cases "fst (download_url cfg e url archive_dir with_media st)")
    case None
    then show ?thesis using b by simp
  next
    case (Some res)
    then have "fst (download_url cfg e url archive_dir with_media st) \<noteq> None" by simp
    with b have d: "dirs (snd (download_url cfg e url archive_dir with_media st))
                  = dirs (let st1 = ensure_dir e (ensure_dir e (ensure_dir e st
                                       (path_join archive_dir ''HTML''))
                                       (path_join archive_dir ''JSON''))
                                       (path_join archive_dir ''Logs'')
                          in if strip_char CHR ''/'' (url_path (urlparse url)) \<noteq> []
                             then ensure_dir e st1
                                    (path_join_all (path_join archive_dir ''HTML'')
                                       (butlast (page_path_parts url)))
                             else st1)"
      by blast
    from a Some obtain code k where
      "fst (download_url cfg e url archive_dir with_media st)
                  = Some (Skipped url (page_file_path archive_dir url) code)"
      "requests (snd (download_url cfg e url archive_dir with_media st))
                  = requests st @ replicate (Suc k) (GET url)"
      "status_count st code
                  < status_count (snd (download_url cfg e url archive_dir with_media st)) code"
      by auto
    with d show ?thesis by blast
  qed
  have 4: "\<forall>r. server e (length (requests st)) (GET url) = Response r
              \<and> \<not> raises_for_status r \<and> status_code r \<notin> set (retry_status_codes cfg)
              \<and> 0 \<le> max_retries cfg
            \<longrightarrow> fst (download_url cfg e url archive_dir with_media st)
                  = Some (Skipped url (page_file_path archive_dir url) (status_code r))
                \<and> requests (snd (download_url cfg e url archive_dir with_media st))
                  = requests st @ [GET url]
                \<and> status_count (snd (download_url cfg e url archive_dir with_media st))
                     (status_code r)
                  = Suc (status_count st (status_code r))"
    using download_url_existing_first [where cfg = cfg and wm = with_media, OF present] by blast
  from 1 2 3 4 show ?thesis by (intro conjI)
qed

theorem existing_file_skipped_after_get_witness:
  "path_exists (env_of always_ok no_media) mirrored_state
     (page_file_path ''/work/Sites/example'' ''https://example.com/'')
   \<and> server (env_of always_ok no_media) (length (requests mirrored_state))
        (GET ''https://example.com/'')
       = Response (ok_response ''text/html'' ''<html></html>'')
   \<and> \<not> raises_for_status (ok_response ''text/html'' ''<html></html>'')
   \<and> status_code (ok_response ''text/html'' ''<html></html>'')
        \<notin> set (retry_status_codes default_config)
   \<and> 0 \<le> max_retries default_config
   \<and> fst (download_url default_config (env_of always_ok no_media) ''https://example.com/''
            ''/work/Sites/example'' True mirrored_state)
       = Some (Skipped ''https://example.com/''
                 ''/work/Sites/example/HTML/example_com_index.html'' 200)
   \<and> requests (snd (download_url default_config (env_of always_ok no_media)
                       ''https://example.com/'' ''/work/Sites/example'' True mirrored_state))
       = [GET ''https://example.com/'']
   \<and> status_count (snd (download_url default_config (env_of always_ok no_media)
                       ''https://example.com/'' ''/work/Sites/example'' True mirrored_state)) 200
       = 1
   \<and> files (snd (download_url default_config (env_of always_ok no_media)
                       ''https://example.com/'' ''/work/Sites/example'' True mirrored_state))
       = files mirrored_state
   \<and> session_logs (snd (download_url default_config (env_of always_ok no_media)
                       ''https://example.com/'' ''/work/Sites/example'' True mirrored_state))
       = session_logs mirrored_state"
proof -
  have h: "path_exists (env_of always_ok no_media) mirrored_state
             (page_file_path ''/work/Sites/example'' ''https://example.com/'')"
    by code_simp
  have s: "server (env_of always_ok no_media) (length (requests mirrored_state))
        (GET ''https://example.com/'')
       = Response (ok_response ''text/html'' ''<html></html>'')"
    by (simp add: env_of_def always_ok_def)
  have o: "\<not> raises_for_status (ok_response ''text/html'' ''<html></html>'')"
    "status_code (ok_response ''text/html'' ''<html></html>'')
        \<notin> set (retry_status_codes default_config)"
    "0 \<le> max_retries default_config"
    by (simp_all add: raises_for_status_def ok_response_def default_config_def)
  have z: "status_count mirrored_state 200 = 0"
    by (simp add: status_count_def mirrored_state_def fresh_state_def)
  have p: "page_file_path ''/work/Sites/example'' ''https://example.com/''
             = ''/work/Sites/example/HTML/example_com_index.html''"
    by code_simp
  have q: "requests mirrored_state = []"
    by (simp add: mirrored_state_def fresh_state_def)
  have c: "status_code (ok_response ''text/html'' ''<html></html>'') = 200"
    by (simp add: ok_response_def)
  show ?thesis
    using h s o z p q c existing_file_skipped_after_get [OF h, of default_config True]
    by simp
qed

section \<open>The local path of a URL\<close>

lemma split_on_nonempty: "split_on d s \<noteq> []"
  by (induction s) (auto split: list.splits)

lemma split_on_no_sep: "seg \<in> set (split_on d s) \<Longrightarrow> d \<notin> set seg"
  by (induction s arbitrary: seg) (auto split: if_splits list.splits)

lemma split_on_chars: "seg \<in> set (split_on d s) \<Longrightarrow> set seg \<subseteq> set s"
proof (induction s arbitrary: seg)
  case Nil
  then show ?case by simp
next
  case (Cons c cs)
  obtain w ws where w: "split_on d cs = w # ws"
    using split_on_nonempty [of d cs] by (cases "split_on d cs") auto
  have tail: "set t \<subseteq> set cs" if "t \<in> set (w # ws)" for t
    using Cons.IH [of t] that w by simp
  show ?case
  proof (cases "c = d")
    case True
    then have "seg = [] \<or> seg \<in> set (w # ws)" using Cons.prems w by auto
    then show ?thesis using tail by auto
  next
    case False
    then have "seg = c # w \<or> seg \<in> set ws" using Cons.prems w by auto
    then show ?thesis using tail [of w] tail [of seg] by auto
  qed
qed

lemma strip_char_chars: "set (strip_char d s) \<subseteq> set s"
proof -
  have "set (rstrip_char d t) \<subseteq> set t" for t
    using set_dropWhileD [of _ "\<lambda>c. c = d" "rev t"] by (auto simp: rstrip_char_def)
  moreover have "set (dropWhile (\<lambda>c. c = d) s) \<subseteq> set s"
    using set_dropWhileD by fastforce
  ultimately show ?thesis unfolding strip_char_def by blast
qed

lemma split_first_no_sep: "d \<notin> set (fst (split_first d s))"
  using set_takeWhileD [of d "\<lambda>c. c \<noteq> d" s] by (auto simp: split_first_def)

lemma split_first_chars: "set (fst (split_first d s)) \<subseteq> set s"
  using set_takeWhileD [of _ "\<lambda>c. c \<noteq> d" s] by (auto simp: split_first_def)

lemma last_segment_chars: "set (last_segment s) \<subseteq> set s"
  using set_takeWhileD [of _ "\<lambda>c. c \<noteq> CHR ''/''" "rev s"] by (auto simp: last_segment_def)

lemma splitparams_chars: "set (fst (splitparams s)) \<subseteq> set s"
proof -
  have "set (take n s) \<subseteq> set s" for n by (rule set_take_subset)
  then show ?thesis
    using split_first_chars [of "CHR '';''" "last_segment s"] last_segment_chars [of s]
    by (auto simp: splitparams_def Let_def)
qed

lemma url_path_no_query_mark: "CHR ''?'' \<notin> set (url_path (urlparse url))"
proof -
  have "CHR ''?'' \<notin> set (fst (split_first CHR ''?'' s))" for s
    by (rule split_first_no_sep)
  moreover have "set (fst (splitparams t)) \<subseteq> set t" for t
    by (rule splitparams_chars)
  ultimately show ?thesis
    unfolding urlparse_def Let_def by (auto simp: split_beta)
qed

lemma url_netloc_no_delim:
  "CHR ''/'' \<notin> set (url_netloc (urlparse url))" "CHR ''?'' \<notin> set (url_netloc (urlparse url))"
proof -
  have "c \<in> set (fst (split_netloc s)) \<Longrightarrow> \<not> netloc_delim c" for c s
    using set_takeWhileD [of c "\<lambda>c. \<not> netloc_delim c" "drop 2 s"]
    by (auto simp: split_netloc_def split: if_splits)
  then have "c \<in> set (url_netloc (urlparse url)) \<Longrightarrow> \<not> netloc_delim c" for c
    unfolding urlparse_def Let_def by (auto simp: split_beta)
  then show "CHR ''/'' \<notin> set (url_netloc (urlparse url))"
    "CHR ''?'' \<notin> set (url_netloc (urlparse url))"
    by (auto simp: netloc_delim_def)
qed

lemma page_path_parts_clean:
  assumes "seg \<in> set (page_path_parts url)"
  shows "CHR ''/'' \<notin> set seg \<and> CHR ''?'' \<notin> set seg"
proof -
  let ?pth = "strip_char CHR ''/'' (url_path (urlparse url))"
  let ?parts = "split_on CHR ''/'' ?pth"
  have q: "CHR ''?'' \<notin> set ?pth"
    using strip_char_chars [of "CHR ''/''" "url_path (urlparse url)"] url_path_no_query_mark [of url]
    by blast
  have part: "CHR ''/'' \<notin> set p \<and> CHR ''?'' \<notin> set p" if "p \<in> set ?parts" for p
    using that split_on_no_sep [of p "CHR ''/''" ?pth] split_on_chars [of p "CHR ''/''" ?pth] q
    by blast
  have ne: "?parts \<noteq> []" by (rule split_on_nonempty)
  have lastp: "last ?parts \<in> set ?parts" using ne by simp
  have butl: "p \<in> set (butlast ?parts) \<Longrightarrow> p \<in> set ?parts" for p
    by (rule in_set_butlastD)
  show ?thesis
  proof (cases "?pth = []")
    case True
    then have "seg = replace_char CHR ''.'' CHR ''_'' (url_netloc (urlparse url)) @ ''_index.html''"
      using assms by (simp add: page_path_parts_def Let_def)
    then show ?thesis
      using url_netloc_no_delim [of url] by (auto simp: replace_char_def)
  next
    case False
    then have "seg \<in> set ?parts \<or> seg = last ?parts @ ''.html''"
      using assms butl by (auto simp: page_path_parts_def Let_def split: if_splits)
    then show ?thesis
      using part lastp by auto
  qed
qed

lemma save_page_result_path:
  "fst (save_page cfg e url dir wm r s) = Some res \<Longrightarrow>
   result_file_path res = page_file_path dir url"
  by (auto simp: save_page_def Let_def split_beta page_file_path_def result_file_path_def
           split: if_splits)

lemma download_url_result_path:
  "fst (download_url cfg e url dir wm st) = Some res \<Longrightarrow>
   result_file_path res = page_file_path dir url"
proof -
  let ?Q = "\<lambda>out (s::run_state). \<forall>res. out = Some res \<longrightarrow> result_file_path res = page_file_path dir url"
  have "?Q (fst (download_url_loop cfg e url dir wm 0 st)) (snd (download_url_loop cfg e url dir wm 0 st))"
    by (rule download_url_loop_rule [where P = "\<lambda>s. True" and Q = ?Q])
       (simp_all add: save_page_result_path)
  then show "fst (download_url cfg e url dir wm st) = Some res \<Longrightarrow>
     result_file_path res = page_file_path dir url"
    by (simp add: download_url_def)
qed

section \<open>Which links the rewrite pass replaces\<close>

lemma replace_char_removes: "a \<noteq> b \<Longrightarrow> a \<notin> set (replace_char a b s)"
  by (auto simp: replace_char_def)

lemma in_set_alist_update:
  "(k', v') \<in> set (AList.update k v al) \<Longrightarrow> (k', v') = (k, v) \<or> (k', v') \<in> set al"
  by (induction al) (auto split: if_splits)

lemma record_links_internal:
  assumes "\<forall>(f, ls) \<in> set (internal_links v). \<forall>l \<in> set ls. non_http (link_url l)"
  shows "\<forall>(f, ls) \<in> set (internal_links (record_links rel ms v)).
           \<forall>l \<in> set ls. non_http (link_url l)"
  using assms
proof (induction ms arbitrary: v)
  case Nil
  then show ?case by simp
next
  case (Cons m ms)
  define old where "old = (case map_of (internal_links v) rel of None \<Rightarrow> [] | Some ls \<Rightarrow> ls)"
  let ?v' = "v\<lparr>internal_links := AList.update rel (old @ [m]) (internal_links v)\<rparr>"
  have old: "\<forall>l \<in> set old. non_http (link_url l)"
  proof (cases "map_of (internal_links v) rel")
    case None
    then show ?thesis by (simp add: old_def)
  next
    case (Some ls)
    then have "(rel, ls) \<in> set (internal_links v)" by (rule map_of_SomeD)
    then show ?thesis using Cons.prems Some by (auto simp: old_def)
  qed
  have new: "\<forall>(f, ls) \<in> set (internal_links ?v'). \<forall>l \<in> set ls. non_http (link_url l)"
    if "non_http (link_url m)"
  proof -
    have "\<forall>l \<in> set ls. non_http (link_url l)" if "(f, ls) \<in> set (internal_links ?v')" for f ls
    proof -
      from that have "(f, ls) = (rel, old @ [m]) \<or> (f, ls) \<in> set (internal_links v)"
        using in_set_alist_update [of f ls rel "old @ [m]" "internal_links v"] by simp
      then show ?thesis using old \<open>non_http (link_url m)\<close> Cons.prems by auto
    qed
    then show ?thesis by auto
  qed
  show ?case
  proof (cases "startswith (link_url m) ''./images/''")
    case True
    then show ?thesis using Cons.IH [of v] Cons.prems by simp
  next
    case False
    show ?thesis
    proof (cases "non_http (link_url m)")
      case True
      then have "record_links rel (m # ms) v = record_links rel ms ?v'"
        using False by (simp add: non_http_def old_def)
      then show ?thesis using Cons.IH [of ?v'] new [OF True] by simp
    next
      case ext: False
      let ?v'' = "v\<lparr>external_links := external_links v @
                  [\<lparr>ext_from_file = rel, ext_url = link_url m, ext_text = link_text m\<rparr>]\<rparr>"
      have "record_links rel (m # ms) v = record_links rel ms ?v''"
        using False ext by (simp add: non_http_def)
      then show ?thesis using Cons.IH [of ?v''] Cons.prems by simp
    qed
  qed
qed

lemma find_links_internal:
  assumes "\<forall>(f, ls) \<in> set (internal_links v). \<forall>l \<in> set ls. non_http (link_url l)"
  shows "\<forall>(f, ls) \<in> set (internal_links (find_links_in_markdown docs v)).
           \<forall>l \<in> set ls. non_http (link_url l)"
  using assms
proof (induction docs arbitrary: v)
  case Nil
  then show ?case by simp
next
  case (Cons fc docs)
  obtain f c where fc: "fc = (f, c)" by (cases fc)
  show ?case
    using Cons.IH [of "record_links f (finditer 0 c) v"]
      record_links_internal [OF Cons.prems, of f "finditer 0 c"] fc
    by simp
qed

lemma set_sort_links: "set (sort_links ls) = set ls"
  by (simp add: sort_links_def)

lemma sort_links_descending: "sorted (rev (map link_start (sort_links ls)))"
  by (simp add: sort_links_def rev_map [symmetric])

lemma match_link_length:
  assumes "match_link s = Some (t, g, n)"
  shows "n = length t + length g + 4" and "g \<noteq> []"
  using assms by (auto simp: match_link_def Let_def split: list.splits if_splits)

lemma finditer_ascending:
  "sorted_wrt (<) (map link_start (finditer pos s))
   \<and> (\<forall>l \<in> set (finditer pos s). int pos < link_start l)"
proof (induction "length s" arbitrary: pos s rule: less_induct)
  case less
  show ?case
  proof (cases "s = []")
    case True
    then have "finditer pos s = []" by (subst finditer.simps) simp
    then show ?thesis by simp
  next
    case False
    show ?thesis
    proof (cases "match_link s")
      case None
      have eq: "finditer pos s = finditer (Suc pos) (tl s)"
        using False None by (subst finditer.simps) simp
      have "length (tl s) < length s" using False by simp
      from less [OF this, of "Suc pos"] show ?thesis unfolding eq by auto
    next
      case (Some m)
      obtain t g n where m: "m = (t, g, n)" by (cases m)
      note n = match_link_length [OF Some [unfolded m]]
      define l where "l = \<lparr>link_url = g, link_text = t,
                 link_start = int (pos + length t + 3),
                 link_end = int (pos + length t + 3 + length g)\<rparr>"
      have eq: "finditer pos s = l # finditer (pos + n) (drop n s)"
        using False Some m by (subst finditer.simps) (simp add: l_def)
      have "length (drop n s) < length s" using False n by simp
      note IH = less [OF this, of "pos + n"]
      have later: "\<forall>x \<in> set (finditer (pos + n) (drop n s)). link_start l < link_start x"
        using IH n by (auto simp: l_def)
      have "\<forall>x \<in> set (finditer (pos + n) (drop n s)). int pos < link_start x"
        using IH by auto
      then show ?thesis unfolding eq using IH later by (simp add: l_def)
    qed
  qed
qed

lemma insort_key_last:
  "\<forall>x \<in> set ys. f x < f y \<Longrightarrow> insort_key f y ys = ys @ [y]"
  by (induction ys) auto

lemma sort_key_rev_ascending:
  "sorted_wrt (<) (map f ls) \<Longrightarrow> sort_key f (rev ls) = ls"
proof (induction ls rule: rev_induct)
  case Nil
  show ?case by simp
next
  case (snoc y ys)
  have a: "sorted_wrt (<) (map f ys)" and b: "\<forall>x \<in> set ys. f x < f y"
    using snoc.prems by (auto simp: sorted_wrt_append)
  show ?case using snoc.IH [OF a] insort_key_last [OF b] by simp
qed

lemma sort_links_ascending:
  "sorted_wrt (<) (map link_start ls) \<Longrightarrow> sort_links ls = rev ls"
  by (simp add: sort_links_def sort_key_rev_ascending)


lemma relpath_none: "relpath wd p start = None \<Longrightarrow> p = []"
  by (simp add: relpath_def Let_def split: if_splits list.splits)

lemma adjusted_links_same:
  "map (\<lambda>l. (link_url l, link_text l))
     (filter (\<lambda>l. K (link_url l))
        (map (\<lambda>other. if C other then other\<lparr>link_end := E other\<rparr> else other) ls))
   = map (\<lambda>l. (link_url l, link_text l)) (filter (\<lambda>l. K (link_url l)) ls)"
  by (induction ls) auto

text \<open>The loop reports the links it replaces in the order in which it is given them.\<close>

lemma fix_links_order:
  assumes nr: "\<forall>u. pm u \<noteq> Some []"
  shows "map (\<lambda>x. (fixed_from x, fixed_text x)) (fix_fixed (fix_links pm wd f ls st))
       = map (\<lambda>x. (fixed_from x, fixed_text x)) (fix_fixed st)
         @ map (\<lambda>l. (link_url l, link_text l))
             (filter (\<lambda>l. \<not> (endswith (link_url l) ''.md''
                               \<and> (CHR ''/'' \<in> set (link_url l) \<or> CHR 0x5C \<in> set (link_url l)))
                           \<and> pm (link_url l) \<noteq> None) ls)"
proof (induction "length ls" arbitrary: ls st)
  case 0
  then show ?case by simp
next
  case (Suc n)
  from Suc.hyps(2) obtain l ls' where lls: "ls = l # ls'" and n: "n = length ls'"
    by (cases ls) auto
  note IH = Suc.hyps(1)
  let ?K = "\<lambda>u. \<not> (endswith u ''.md'' \<and> (CHR ''/'' \<in> set u \<or> CHR 0x5C \<in> set u))
                 \<and> pm u \<noteq> None"
  let ?pairs = "\<lambda>xs. map (\<lambda>l. (link_url l, link_text l)) (filter (\<lambda>l. ?K (link_url l)) xs)"
  let ?rep = "\<lambda>s. map (\<lambda>x. (fixed_from x, fixed_text x)) (fix_fixed s)"
  have goal: "?rep (fix_links pm wd f (l # ls') st) = ?rep st @ ?pairs (l # ls')"
  proof (cases "endswith (link_url l) ''.md''
         \<and> (CHR ''/'' \<in> set (link_url l) \<or> CHR 0x5C \<in> set (link_url l))")
    case True
    then have "fix_links pm wd f (l # ls') st = fix_links pm wd f ls' st"
      by (simp only: fix_links.simps if_True simp_thms)
    moreover have "?pairs (l # ls') = ?pairs ls'" using True by auto
    ultimately show ?thesis using IH [OF n, of st] by (simp only:)
  next
    case False
    then have skip: "(endswith (link_url l) ''.md''
         \<and> (CHR ''/'' \<in> set (link_url l) \<or> CHR 0x5C \<in> set (link_url l))) = False"
      by (rule eq_False [THEN iffD2])
    show ?thesis
    proof (cases "pm (link_url l)")
      case None
      let ?st' = "st\<lparr>fix_broken := fix_broken st @
                     [\<lparr>broken_file = f, broken_url = link_url l, broken_text = link_text l\<rparr>]\<rparr>"
      have eq: "fix_links pm wd f (l # ls') st = fix_links pm wd f ls' ?st'"
        by (simp only: fix_links.simps skip if_False None option.case)
      have p: "?pairs (l # ls') = ?pairs ls'" using None by auto
      have r: "?rep ?st' = ?rep st" by simp
      show ?thesis using IH [OF n, of ?st'] by (simp only: eq p r)
    next
      case (Some target)
      have tne: "target \<noteq> []" using nr Some by auto
      have "(if dirname f \<noteq> [] then relpath wd target (dirname f) else Some target) \<noteq> None"
        using tne relpath_none [of wd target "dirname f"] by auto
      then obtain rp where rp: "(if dirname f \<noteq> [] then relpath wd target (dirname f)
                            else Some target) = Some rp"
        by blast
      let ?rel = "replace_char (CHR 0x5C) CHR ''/'' rp"
      let ?d = "int (length ?rel) - int (length (py_slice (fix_content st) (link_start l) (link_end l)))"
      let ?ls' = "map (\<lambda>other. if link_start other < link_start l
                       then other\<lparr>link_end := link_end other + ?d\<rparr> else other) ls'"
      let ?st' = "st\<lparr>fix_content := py_upto (fix_content st) (link_start l) @ ?rel
                                            @ py_from (fix_content st) (link_end l),
                            fix_fixed := fix_fixed st @
                              [\<lparr>fixed_file = f, fixed_from = link_url l,
                                fixed_to = ?rel, fixed_text = link_text l\<rparr>],
                            file_updated := True\<rparr>"
      have eq: "fix_links pm wd f (l # ls') st = fix_links pm wd f ?ls' ?st'"
        by (simp only: fix_links.simps skip if_False Some option.case rp Let_def)
      have n': "n = length ?ls'" using n by simp
      have same: "?pairs ?ls' = ?pairs ls'" by (rule adjusted_links_same)
      have p: "?pairs (l # ls') = (link_url l, link_text l) # ?pairs ls'"
        using False Some by auto
      have r: "?rep ?st' = ?rep st @ [(link_url l, link_text l)]" by simp
      show ?thesis using IH [OF n', of ?st'] by (simp only: eq same p r) simp
    qed
  qed
  then show ?case by (simp only: lls)
qed

text \<open>What holds of every replacement the loop reports, given that it holds of the
  ones reported before.\<close>

lemma fix_links_reports:
  assumes "\<forall>l \<in> set ls. G (link_url l)"
    and "\<forall>x \<in> set (fix_fixed st). Q x"
    and step: "\<And>u t rp txt. G u \<Longrightarrow> pm u = Some t \<Longrightarrow>
        (if dirname f \<noteq> [] then relpath wd t (dirname f) else Some t) = Some rp \<Longrightarrow>
        Q \<lparr>fixed_file = f, fixed_from = u, fixed_to = replace_char (CHR 0x5C) CHR ''/'' rp,
           fixed_text = txt\<rparr>"
  shows "\<forall>x \<in> set (fix_fixed (fix_links pm wd f ls st)). Q x"
  using assms(1,2)
proof (induction "length ls" arbitrary: ls st)
  case 0
  then show ?case by simp
next
  case (Suc n)
  from Suc.hyps(2) obtain l ls' where lls: "ls = l # ls'" and n: "n = length ls'"
    by (cases ls) auto
  have gl: "G (link_url l)" and gls: "\<forall>l \<in> set ls'. G (link_url l)"
    using Suc.prems(1) lls by simp_all
  note fx = Suc.prems(2)
  note IH = Suc.hyps(1)
  have urls: "\<forall>o' \<in> set (map (\<lambda>other. if link_start other < link_start l
                       then other\<lparr>link_end := link_end other + d\<rparr> else other) ls').
                G (link_url o')" for d
    using gls by auto
  have "\<forall>x \<in> set (fix_fixed (fix_links pm wd f (l # ls') st)). Q x"
  proof (cases "endswith (link_url l) ''.md''
         \<and> (CHR ''/'' \<in> set (link_url l) \<or> CHR 0x5C \<in> set (link_url l))")
    case True
    then have "fix_links pm wd f (l # ls') st = fix_links pm wd f ls' st"
      by (simp only: fix_links.simps if_True simp_thms)
    then show ?thesis using IH [OF n gls fx] by (simp only:)
  next
    case False
    then have skip: "(endswith (link_url l) ''.md''
         \<and> (CHR ''/'' \<in> set (link_url l) \<or> CHR 0x5C \<in> set (link_url l))) = False"
      by (rule eq_False [THEN iffD2])
    show ?thesis
    proof (cases "pm (link_url l)")
      case None
      let ?st' = "st\<lparr>fix_broken := fix_broken st @
                     [\<lparr>broken_file = f, broken_url = link_url l, broken_text = link_text l\<rparr>]\<rparr>"
      have eq: "fix_links pm wd f (l # ls') st = fix_links pm wd f ls' ?st'"
        by (simp only: fix_links.simps skip if_False None option.case)
      have "\<forall>x \<in> set (fix_fixed ?st'). Q x"
        using fx by (simp del: fix_links.simps)
      from IH [OF n gls this] show ?thesis by (simp only: eq)
    next
      case (Some target)
      show ?thesis
      proof (cases "if dirname f \<noteq> [] then relpath wd target (dirname f) else Some target")
        case None
        then have "fix_links pm wd f (l # ls') st = st\<lparr>fix_raised := True\<rparr>"
          by (simp only: fix_links.simps skip if_False Some option.case)
        then show ?thesis using fx by (simp del: fix_links.simps)
      next
        case rp: (Some rp)
        let ?rel = "replace_char (CHR 0x5C) CHR ''/'' rp"
        let ?d = "int (length ?rel) - int (length (py_slice (fix_content st) (link_start l) (link_end l)))"
        let ?ls' = "map (\<lambda>other. if link_start other < link_start l
                       then other\<lparr>link_end := link_end other + ?d\<rparr> else other) ls'"
        let ?st' = "st\<lparr>fix_content := py_upto (fix_content st) (link_start l) @ ?rel
                                            @ py_from (fix_content st) (link_end l),
                            fix_fixed := fix_fixed st @
                              [\<lparr>fixed_file = f, fixed_from = link_url l,
                                fixed_to = ?rel, fixed_text = link_text l\<rparr>],
                            file_updated := True\<rparr>"
        have eq: "fix_links pm wd f (l # ls') st = fix_links pm wd f ?ls' ?st'"
          by (simp only: fix_links.simps skip if_False Some option.case rp Let_def)
        have n': "n = length ?ls'" using n by simp
        have "\<forall>x \<in> set (fix_fixed ?st'). Q x"
          using fx step [OF gl Some rp, of "link_text l"] by (auto simp del: fix_links.simps)
        from IH [OF n' urls [of ?d] this] show ?thesis by (simp only: eq)
      qed
    qed
  qed
  then show ?case by (simp only: lls)
qed


lemma fix_file_reports:
  assumes "\<forall>l \<in> set ls. G (link_url l)"
    and "\<forall>x \<in> set (fixed_links r). Q x"
    and step: "\<And>u t rp txt. G u \<Longrightarrow> pm u = Some t \<Longrightarrow>
        (if dirname f \<noteq> [] then relpath wd t (dirname f) else Some t) = Some rp \<Longrightarrow>
        Q \<lparr>fixed_file = f, fixed_from = u, fixed_to = replace_char (CHR 0x5C) CHR ''/'' rp,
           fixed_text = txt\<rparr>"
  shows "\<forall>x \<in> set (fixed_links (fix_file pm wd f ls r)). Q x"
proof (cases "map_of (res_files r) f")
  case None
  then show ?thesis using assms(2) by (simp add: fix_file_def)
next
  case (Some content)
  let ?st = "\<lparr>fix_content = content, fix_fixed = fixed_links r, fix_broken = broken_links r,
              file_updated = False, fix_raised = False\<rparr>"
  have "\<forall>x \<in> set (fix_fixed (fix_links pm wd f (sort_links ls) ?st)). Q x"
  proof (rule fix_links_reports [where G = G])
    show "\<forall>l \<in> set (sort_links ls). G (link_url l)"
      using assms(1) by (simp add: set_sort_links)
    show "\<forall>x \<in> set (fix_fixed ?st). Q x" using assms(2) by simp
  qed (rule step)
  then show ?thesis using Some by (simp add: fix_file_def Let_def)
qed

lemma fix_files_reports:
  assumes "\<forall>(f, ls) \<in> set il. \<forall>l \<in> set ls. G (link_url l)"
    and "\<forall>x \<in> set (fixed_links r). Q x"
    and step: "\<And>f u t rp txt. G u \<Longrightarrow> pm u = Some t \<Longrightarrow>
        (if dirname f \<noteq> [] then relpath wd t (dirname f) else Some t) = Some rp \<Longrightarrow>
        Q \<lparr>fixed_file = f, fixed_from = u, fixed_to = replace_char (CHR 0x5C) CHR ''/'' rp,
           fixed_text = txt\<rparr>"
  shows "\<forall>x \<in> set (fixed_links (fix_files pm wd il r)). Q x"
  using assms(1,2)
proof (induction il arbitrary: r)
  case Nil
  then show ?case by simp
next
  case (Cons fl il)
  obtain f ls where fl: "fl = (f, ls)" by (cases fl)
  have a: "\<forall>l \<in> set ls. G (link_url l)" using Cons.prems(1) fl by auto
  have b: "\<forall>(f, ls) \<in> set il. \<forall>l \<in> set ls. G (link_url l)" using Cons.prems(1) by auto
  have c: "\<forall>x \<in> set (fixed_links (fix_file pm wd f ls r)). Q x"
    by (rule fix_file_reports [OF a Cons.prems(2)]) (rule step)
  show ?case using Cons.IH [OF b c] fl by simp
qed

lemma rewrite_pass_reports:
  "\<forall>x \<in> set (fixed_links (rewrite_pass pm wd docs)).
      non_http (fixed_from x)
    \<and> (\<exists>t rp. pm (fixed_from x) = Some t
          \<and> (if dirname (fixed_file x) \<noteq> []
              then relpath wd t (dirname (fixed_file x)) else Some t) = Some rp
          \<and> fixed_to x = replace_char (CHR 0x5C) CHR ''/'' rp)"
  unfolding rewrite_pass_def fix_internal_links_def
proof (rule fix_files_reports [where G = non_http])
  show "\<forall>(f, ls) \<in> set (internal_links (find_links_in_markdown docs
            \<lparr>internal_links = [], external_links = []\<rparr>)). \<forall>l \<in> set ls. non_http (link_url l)"
    by (rule find_links_internal) simp
  show "\<forall>x \<in> set (fixed_links \<lparr>res_files = docs, fixed_links = [], broken_links = []\<rparr>).
      non_http (fixed_from x)
    \<and> (\<exists>t rp. pm (fixed_from x) = Some t
          \<and> (if dirname (fixed_file x) \<noteq> []
              then relpath wd t (dirname (fixed_file x)) else Some t) = Some rp
          \<and> fixed_to x = replace_char (CHR 0x5C) CHR ''/'' rp)"
    by simp
next
  fix f u t rp label
  assume "non_http u" "pm u = Some t"
    "(if dirname f \<noteq> [] then relpath wd t (dirname f) else Some t) = Some rp"
  then show "non_http (fixed_from \<lparr>fixed_file = f, fixed_from = u,
                 fixed_to = replace_char (CHR 0x5C) CHR ''/'' rp, fixed_text = label\<rparr>)
    \<and> (\<exists>t' rp'. pm (fixed_from \<lparr>fixed_file = f, fixed_from = u,
                 fixed_to = replace_char (CHR 0x5C) CHR ''/'' rp, fixed_text = label\<rparr>) = Some t'
          \<and> (if dirname (fixed_file \<lparr>fixed_file = f, fixed_from = u,
                 fixed_to = replace_char (CHR 0x5C) CHR ''/'' rp, fixed_text = label\<rparr>) \<noteq> []
              then relpath wd t' (dirname (fixed_file \<lparr>fixed_file = f, fixed_from = u,
                 fixed_to = replace_char (CHR 0x5C) CHR ''/'' rp, fixed_text = label\<rparr>))
              else Some t') = Some rp'
          \<and> fixed_to \<lparr>fixed_file = f, fixed_from = u,
                 fixed_to = replace_char (CHR 0x5C) CHR ''/'' rp, fixed_text = label\<rparr>
              = replace_char (CHR 0x5C) CHR ''/'' rp')"
    by (auto split: if_splits)
qed

lemma fix_file_order:
  assumes nr: "\<forall>u. pm u \<noteq> Some []"
    and present: "map_of (res_files r) f \<noteq> None"
  shows "map (\<lambda>x. (fixed_from x, fixed_text x)) (fixed_links (fix_file pm wd f ls r))
       = map (\<lambda>x. (fixed_from x, fixed_text x)) (fixed_links r)
         @ map (\<lambda>l. (link_url l, link_text l))
             (filter (\<lambda>l. \<not> (endswith (link_url l) ''.md''
                               \<and> (CHR ''/'' \<in> set (link_url l) \<or> CHR 0x5C \<in> set (link_url l)))
                           \<and> pm (link_url l) \<noteq> None) (sort_links ls))"
proof -
  from present obtain content where c: "map_of (res_files r) f = Some content" by blast
  let ?st = "\<lparr>fix_content = content, fix_fixed = fixed_links r, fix_broken = broken_links r,
              file_updated = False, fix_raised = False\<rparr>"
  have "fixed_links (fix_file pm wd f ls r) = fix_fixed (fix_links pm wd f (sort_links ls) ?st)"
    using c by (simp add: fix_file_def Let_def)
  then show ?thesis using fix_links_order [OF nr, of wd f "sort_links ls" ?st] by simp
qed

lemma record_links_single:
  assumes "internal_links v = (if old = [] then [] else [(f, old)])"
  shows "internal_links (record_links f ms v)
         = (if old @ filter (\<lambda>l. \<not> startswith (link_url l) ''./images/''
                                   \<and> non_http (link_url l)) ms = [] then []
            else [(f, old @ filter (\<lambda>l. \<not> startswith (link_url l) ''./images/''
                                          \<and> non_http (link_url l)) ms)])"
  using assms
proof (induction ms arbitrary: v old)
  case Nil
  then show ?case by simp
next
  case (Cons m ms)
  let ?I = "\<lambda>l. \<not> startswith (link_url l) ''./images/'' \<and> non_http (link_url l)"
  show ?case
  proof (cases "startswith (link_url m) ''./images/''")
    case True
    then have eq: "record_links f (m # ms) v = record_links f ms v" by simp
    show ?thesis unfolding eq using Cons.IH [OF Cons.prems] True by simp
  next
    case False
    show ?thesis
    proof (cases "non_http (link_url m)")
      case ext: False
      let ?v' = "v\<lparr>external_links := external_links v @
                  [\<lparr>ext_from_file = f, ext_url = link_url m, ext_text = link_text m\<rparr>]\<rparr>"
      have eq: "record_links f (m # ms) v = record_links f ms ?v'"
        using False ext by (simp add: non_http_def)
      have "internal_links ?v' = (if old = [] then [] else [(f, old)])"
        using Cons.prems by simp
      from Cons.IH [OF this] show ?thesis unfolding eq using ext by simp
    next
      case True
      let ?v' = "v\<lparr>internal_links :=
                  AList.update f
                    ((case map_of (internal_links v) f of None \<Rightarrow> [] | Some ls \<Rightarrow> ls) @ [m])
                    (internal_links v)\<rparr>"
      have eq: "record_links f (m # ms) v = record_links f ms ?v'"
        using False True by (simp add: non_http_def)
      have "internal_links ?v' = (if old @ [m] = [] then [] else [(f, old @ [m])])"
        using Cons.prems by simp
      from Cons.IH [OF this] show ?thesis unfolding eq using True False by simp
    qed
  qed
qed

lemma rewrite_pass_order:
  assumes nr: "\<forall>u. pm u \<noteq> Some []"
  shows "map (\<lambda>x. (fixed_from x, fixed_text x)) (fixed_links (rewrite_pass pm wd [(f, c)]))
       = map (\<lambda>l. (link_url l, link_text l))
           (filter (\<lambda>l. \<not> (endswith (link_url l) ''.md''
                             \<and> (CHR ''/'' \<in> set (link_url l) \<or> CHR 0x5C \<in> set (link_url l)))
                         \<and> pm (link_url l) \<noteq> None)
              (rev (filter (\<lambda>l. \<not> startswith (link_url l) ''./images/''
                                 \<and> non_http (link_url l)) (finditer 0 c))))"
proof -
  let ?I = "\<lambda>l. \<not> startswith (link_url l) ''./images/'' \<and> non_http (link_url l)"
  let ?ils = "filter ?I (finditer 0 c)"
  let ?v0 = "\<lparr>internal_links = [], external_links = []\<rparr>"
  let ?r0 = "\<lparr>res_files = [(f, c)], fixed_links = [], broken_links = []\<rparr>"
  have il: "internal_links (record_links f (finditer 0 c) ?v0)
              = (if ?ils = [] then [] else [(f, ?ils)])"
    using record_links_single [of ?v0 "[]" f "finditer 0 c"] by simp
  have asc: "sorted_wrt (<) (map link_start ?ils)"
  proof -
    have "sorted_wrt (\<lambda>a b. link_start a < link_start b) (finditer 0 c)"
      using finditer_ascending [of 0 c] by (simp add: sorted_wrt_map)
    then have "sorted_wrt (\<lambda>a b. link_start a < link_start b) ?ils"
      by (rule sorted_wrt_filter)
    then show ?thesis by (simp add: sorted_wrt_map)
  qed
  have srt: "sort_links ?ils = rev ?ils" by (rule sort_links_ascending [OF asc])
  show ?thesis
  proof (cases "?ils = []")
    case True
    then have "rewrite_pass pm wd [(f, c)] = ?r0"
      using il by (simp add: rewrite_pass_def fix_internal_links_def)
    then show ?thesis using True by simp
  next
    case False
    then have "rewrite_pass pm wd [(f, c)] = fix_file pm wd f ?ils ?r0"
      using il by (simp add: rewrite_pass_def fix_internal_links_def)
    then show ?thesis
      using fix_file_order [OF nr, of ?r0 f wd ?ils] srt by simp
  qed
qed



lemma match_link_shape:
  assumes "match_link s = Some (t, g, n)"
  shows "take (length g) (drop (length t + 3) s) = g"
    and "length t + length g + 4 \<le> length s"
proof -
  from assms obtain r where s: "s = CHR ''['' # r"
    by (auto simp: match_link_def split: list.splits if_splits)
  define r2 where "r2 = drop 2 (drop (length (takeWhile (\<lambda>x. x \<noteq> CHR '']'') r)) r)"
  from assms s have t: "t = takeWhile (\<lambda>x. x \<noteq> CHR '']'') r"
    and g: "g = takeWhile (\<lambda>x. x \<noteq> CHR '')'') r2"
    and r3: "drop (length g) r2 \<noteq> []"
    by (auto simp: match_link_def Let_def r2_def split: if_splits)
  have e: "length t + 3 = Suc (length t + 2)" by arith
  have "drop (length t + 3) s = drop (Suc (length t + 2)) (CHR ''['' # r)" by (simp only: s e)
  also have "\<dots> = drop (length t + 2) r" by (simp only: drop_Suc_Cons)
  also have "\<dots> = r2" by (simp add: r2_def t add.commute)
  finally have d: "drop (length t + 3) s = r2" .
  have "take (length g) r2 = g"
    unfolding g by (rule takeWhile_eq_take [symmetric])
  then show "take (length g) (drop (length t + 3) s) = g" by (simp add: d)
  have "length g < length r2" using r3 by simp
  also have "length r2 = length s - (length t + 3)" using d [symmetric] by simp
  finally show "length t + length g + 4 \<le> length s" by simp
qed

lemma finditer_span:
  "l \<in> set (finditer pos s) \<Longrightarrow>
     int pos \<le> link_start l \<and> link_start l \<le> link_end l
     \<and> link_end l \<le> int (pos + length s)
     \<and> take (nat (link_end l - link_start l)) (drop (nat (link_start l) - pos) s) = link_url l"
proof (induction "length s" arbitrary: pos s rule: less_induct)
  case less
  show ?case
  proof (cases "s = []")
    case True
    then have "finditer pos s = []" by (subst finditer.simps) simp
    then show ?thesis using less.prems by simp
  next
    case False
    show ?thesis
    proof (cases "match_link s")
      case None
      have eq: "finditer pos s = finditer (Suc pos) (tl s)"
        using False None by (subst finditer.simps) simp
      have len: "length (tl s) < length s" using False by simp
      have mem: "l \<in> set (finditer (Suc pos) (tl s))" using less.prems eq by simp
      note IH = less.hyps [OF len mem]
      have k: "nat (link_start l) - pos = Suc (nat (link_start l) - Suc pos)"
        using IH by linarith
      obtain a r where ar: "s = a # r" using False by (cases s) auto
      have dr: "drop (nat (link_start l) - Suc pos) (tl s) = drop (nat (link_start l) - pos) s"
        by (simp only: k ar drop_Suc_Cons list.sel)
      have "int (Suc pos + length (tl s)) = int (pos + length s)" by (simp add: ar)
      then show ?thesis using IH dr by auto
    next
      case (Some m)
      obtain t g n where m: "m = (t, g, n)" by (cases m)
      note n = match_link_length [OF Some [unfolded m]]
      note sh = match_link_shape [OF Some [unfolded m]]
      define l0 where "l0 = \<lparr>link_url = g, link_text = t,
                 link_start = int (pos + length t + 3),
                 link_end = int (pos + length t + 3 + length g)\<rparr>"
      have eq: "finditer pos s = l0 # finditer (pos + n) (drop n s)"
        using False Some m by (subst finditer.simps) (simp add: l0_def)
      show ?thesis
      proof (cases "l = l0")
        case True
        have "nat (link_start l0) - pos = length t + 3" by (simp add: l0_def)
        moreover have "nat (link_end l0 - link_start l0) = length g" by (simp add: l0_def)
        ultimately show ?thesis using True sh by (simp add: l0_def)
      next
        case other: False
        then have mem: "l \<in> set (finditer (pos + n) (drop n s))" using less.prems eq by simp
        have len: "length (drop n s) < length s" using False n by simp
        note IH = less.hyps [OF len mem]
        have nle: "n \<le> length s" using sh(2) n(1) by simp
        have ge: "int (pos + n) \<le> link_start l" using IH by blast
        have "nat (link_start l) - (pos + n) + n = nat (link_start l) - pos"
          using ge by linarith
        then have dr: "drop (nat (link_start l) - (pos + n)) (drop n s)
                     = drop (nat (link_start l) - pos) s"
          by (simp add: add.commute)
        have "int (pos + n + length (drop n s)) = int (pos + length s)" using nle by simp
        then show ?thesis using IH dr by auto
      qed
    qed
  qed
qed


lemma fix_links_none_kept:
  assumes "\<forall>l \<in> set ls. (endswith (link_url l) ''.md''
                \<and> (CHR ''/'' \<in> set (link_url l) \<or> CHR 0x5C \<in> set (link_url l)))
              \<or> pm (link_url l) = None"
  shows "fix_content (fix_links pm wd f ls st) = fix_content st
       \<and> file_updated (fix_links pm wd f ls st) = file_updated st
       \<and> fix_raised (fix_links pm wd f ls st) = fix_raised st
       \<and> fix_fixed (fix_links pm wd f ls st) = fix_fixed st"
  using assms
proof (induction ls arbitrary: st)
  case Nil
  show ?case by simp
next
  case (Cons l ls)
  have rest: "\<forall>l \<in> set ls. (endswith (link_url l) ''.md''
                \<and> (CHR ''/'' \<in> set (link_url l) \<or> CHR 0x5C \<in> set (link_url l)))
              \<or> pm (link_url l) = None"
    using Cons.prems by simp
  show ?case
  proof (cases "endswith (link_url l) ''.md''
         \<and> (CHR ''/'' \<in> set (link_url l) \<or> CHR 0x5C \<in> set (link_url l))")
    case True
    then have "fix_links pm wd f (l # ls) st = fix_links pm wd f ls st"
      by (simp only: fix_links.simps if_True simp_thms)
    then show ?thesis using Cons.IH [OF rest, of st] by (simp only:)
  next
    case False
    then have none: "pm (link_url l) = None" using Cons.prems by auto
    from False have skip: "(endswith (link_url l) ''.md''
         \<and> (CHR ''/'' \<in> set (link_url l) \<or> CHR 0x5C \<in> set (link_url l))) = False"
      by (rule eq_False [THEN iffD2])
    let ?st' = "st\<lparr>fix_broken := fix_broken st @
                     [\<lparr>broken_file = f, broken_url = link_url l, broken_text = link_text l\<rparr>]\<rparr>"
    have eq: "fix_links pm wd f (l # ls) st = fix_links pm wd f ls ?st'"
      by (simp only: fix_links.simps skip if_False none option.case)
    show ?thesis using Cons.IH [OF rest, of ?st'] by (simp only: eq) simp
  qed
qed

lemma fix_links_one_kept:
  assumes nr: "\<forall>u. pm u \<noteq> Some []"
    and one: "filter (\<lambda>l. \<not> (endswith (link_url l) ''.md''
                              \<and> (CHR ''/'' \<in> set (link_url l) \<or> CHR 0x5C \<in> set (link_url l)))
                          \<and> pm (link_url l) \<noteq> None) ls = [l]"
  shows "\<exists>t rp. pm (link_url l) = Some t
            \<and> (if dirname f \<noteq> [] then relpath wd t (dirname f) else Some t) = Some rp
            \<and> fix_content (fix_links pm wd f ls st)
                = py_upto (fix_content st) (link_start l)
                  @ replace_char (CHR 0x5C) CHR ''/'' rp
                  @ py_from (fix_content st) (link_end l)
            \<and> file_updated (fix_links pm wd f ls st)
            \<and> fix_raised (fix_links pm wd f ls st) = fix_raised st"
  using one
proof (induction ls arbitrary: st)
  case Nil
  then show ?case by simp
next
  case (Cons x xs)
  let ?K = "\<lambda>l. \<not> (endswith (link_url l) ''.md''
                     \<and> (CHR ''/'' \<in> set (link_url l) \<or> CHR 0x5C \<in> set (link_url l)))
                 \<and> pm (link_url l) \<noteq> None"
  show ?case
  proof (cases "?K x")
    case True
    then have xl: "x = l" and rest: "filter ?K xs = []" using Cons.prems by auto
    from True have skip: "(endswith (link_url l) ''.md''
         \<and> (CHR ''/'' \<in> set (link_url l) \<or> CHR 0x5C \<in> set (link_url l))) = False"
      unfolding xl by (intro eq_False [THEN iffD2]) blast
    from True obtain t where t: "pm (link_url l) = Some t" unfolding xl by auto
    have tne: "t \<noteq> []" using nr t by auto
    have "(if dirname f \<noteq> [] then relpath wd t (dirname f) else Some t) \<noteq> None"
      using tne relpath_none [of wd t "dirname f"] by auto
    then obtain rp where rp: "(if dirname f \<noteq> [] then relpath wd t (dirname f)
                            else Some t) = Some rp"
      by blast
    let ?rel = "replace_char (CHR 0x5C) CHR ''/'' rp"
    let ?d = "int (length ?rel) - int (length (py_slice (fix_content st) (link_start l) (link_end l)))"
    let ?xs' = "map (\<lambda>other. if link_start other < link_start l
                       then other\<lparr>link_end := link_end other + ?d\<rparr> else other) xs"
    let ?st' = "st\<lparr>fix_content := py_upto (fix_content st) (link_start l) @ ?rel
                                            @ py_from (fix_content st) (link_end l),
                            fix_fixed := fix_fixed st @
                              [\<lparr>fixed_file = f, fixed_from = link_url l,
                                fixed_to = ?rel, fixed_text = link_text l\<rparr>],
                            file_updated := True\<rparr>"
    have eq: "fix_links pm wd f (x # xs) st = fix_links pm wd f ?xs' ?st'"
      unfolding xl by (simp only: fix_links.simps skip if_False t option.case rp Let_def)
    have "\<forall>o' \<in> set xs. \<not> ?K o'" using rest by (simp add: filter_empty_conv)
    then have none: "\<forall>o' \<in> set ?xs'. (endswith (link_url o') ''.md''
                \<and> (CHR ''/'' \<in> set (link_url o') \<or> CHR 0x5C \<in> set (link_url o')))
              \<or> pm (link_url o') = None"
      by auto
    note after = fix_links_none_kept [OF none, of wd f ?st']
    have "fix_content (fix_links pm wd f (x # xs) st)
            = py_upto (fix_content st) (link_start l) @ ?rel @ py_from (fix_content st) (link_end l)"
      and "file_updated (fix_links pm wd f (x # xs) st)"
      and "fix_raised (fix_links pm wd f (x # xs) st) = fix_raised st"
      using after by (simp_all only: eq) simp_all
    then show ?thesis using t rp by blast
  next
    case False
    then have rest: "filter ?K xs = [l]" using Cons.prems by auto
    show ?thesis
    proof (cases "endswith (link_url x) ''.md''
         \<and> (CHR ''/'' \<in> set (link_url x) \<or> CHR 0x5C \<in> set (link_url x))")
      case True
      then have "fix_links pm wd f (x # xs) st = fix_links pm wd f xs st"
        by (simp only: fix_links.simps if_True simp_thms)
      then show ?thesis using Cons.IH [OF rest, of st] by (simp only:)
    next
      case nskip: False
      then have none: "pm (link_url x) = None" using False by auto
      from nskip have skip: "(endswith (link_url x) ''.md''
           \<and> (CHR ''/'' \<in> set (link_url x) \<or> CHR 0x5C \<in> set (link_url x))) = False"
        by (rule eq_False [THEN iffD2])
      let ?st' = "st\<lparr>fix_broken := fix_broken st @
                     [\<lparr>broken_file = f, broken_url = link_url x, broken_text = link_text x\<rparr>]\<rparr>"
      have eq: "fix_links pm wd f (x # xs) st = fix_links pm wd f xs ?st'"
        by (simp only: fix_links.simps skip if_False none option.case)
      show ?thesis using Cons.IH [OF rest, of ?st'] by (simp only: eq) simp
    qed
  qed
qed


lemma py_upto_take: "0 \<le> i \<Longrightarrow> py_upto s i = take (nat i) s"
  by (simp add: py_upto_def py_index_def min_def)

lemma py_from_drop: "0 \<le> i \<Longrightarrow> py_from s i = drop (nat i) s"
  by (simp add: py_from_def py_index_def min_def)

lemma finditer_target_span:
  assumes "l \<in> set (finditer 0 c)"
  shows "0 \<le> link_start l" and "link_start l \<le> link_end l"
    and "c = take (nat (link_start l)) c @ link_url l @ drop (nat (link_end l)) c"
proof -
  note sp = finditer_span [OF assms]
  show a: "0 \<le> link_start l" and b: "link_start l \<le> link_end l" using sp by simp_all
  have u: "take (nat (link_end l - link_start l)) (drop (nat (link_start l)) c) = link_url l"
    using sp by simp
  have "nat (link_end l - link_start l) + nat (link_start l) = nat (link_end l)"
    using a b by linarith
  then have d: "drop (nat (link_end l - link_start l)) (drop (nat (link_start l)) c)
                  = drop (nat (link_end l)) c"
    by (simp only: drop_drop)
  have "drop (nat (link_start l)) c = link_url l @ drop (nat (link_end l)) c"
    using append_take_drop_id [of "nat (link_end l - link_start l)" "drop (nat (link_start l)) c"]
    by (simp only: u d)
  then show "c = take (nat (link_start l)) c @ link_url l @ drop (nat (link_end l)) c"
    using append_take_drop_id [of "nat (link_start l)" c] by simp
qed

lemma rewrite_pass_single:
  "rewrite_pass pm wd [(g, c)]
     = (let ils = filter (\<lambda>l. \<not> startswith (link_url l) ''./images/''
                               \<and> non_http (link_url l)) (finditer 0 c);
            r0 = \<lparr>res_files = [(g, c)], fixed_links = [], broken_links = []\<rparr>
        in if ils = [] then r0 else fix_file pm wd g ils r0)"
  using record_links_single [of "\<lparr>internal_links = [], external_links = []\<rparr>" "[]" g "finditer 0 c"]
  by (simp add: rewrite_pass_def fix_internal_links_def Let_def)

lemma internal_links_descending:
  "sort_links (filter P (finditer 0 c)) = rev (filter P (finditer 0 c))"
proof -
  have "sorted_wrt (\<lambda>a b. link_start a < link_start b) (finditer 0 c)"
    using finditer_ascending [of 0 c] by (simp add: sorted_wrt_map)
  then have "sorted_wrt (\<lambda>a b. link_start a < link_start b) (filter P (finditer 0 c))"
    by (rule sorted_wrt_filter)
  then have "sorted_wrt (<) (map link_start (filter P (finditer 0 c)))"
    by (simp add: sorted_wrt_map)
  then show ?thesis by (rule sort_links_ascending)
qed

lemma rewrite_pass_none_kept:
  assumes "filter (\<lambda>l. \<not> (endswith (link_url l) ''.md''
                           \<and> (CHR ''/'' \<in> set (link_url l) \<or> CHR 0x5C \<in> set (link_url l)))
                       \<and> pm (link_url l) \<noteq> None)
             (rev (filter (\<lambda>l. \<not> startswith (link_url l) ''./images/''
                               \<and> non_http (link_url l)) (finditer 0 c))) = []"
  shows "res_files (rewrite_pass pm wd [(g, c)]) = [(g, c)]"
proof -
  let ?ils = "filter (\<lambda>l. \<not> startswith (link_url l) ''./images/''
                          \<and> non_http (link_url l)) (finditer 0 c)"
  let ?st = "\<lparr>fix_content = c, fix_fixed = [], fix_broken = [],
              file_updated = False, fix_raised = False\<rparr>"
  have none: "\<forall>l \<in> set (rev ?ils). (endswith (link_url l) ''.md''
                \<and> (CHR ''/'' \<in> set (link_url l) \<or> CHR 0x5C \<in> set (link_url l)))
              \<or> pm (link_url l) = None"
    using assms by (simp only: filter_empty_conv) blast
  have "\<not> file_updated (fix_links pm wd g (rev ?ils) ?st)"
    using fix_links_none_kept [OF none, where wd = wd and f = g and st = ?st] by simp
  then show ?thesis
    by (simp add: rewrite_pass_single Let_def fix_file_def internal_links_descending)
qed

lemma rewrite_pass_one_kept:
  assumes nr: "\<forall>u. pm u \<noteq> Some []"
    and one: "filter (\<lambda>l. \<not> (endswith (link_url l) ''.md''
                           \<and> (CHR ''/'' \<in> set (link_url l) \<or> CHR 0x5C \<in> set (link_url l)))
                       \<and> pm (link_url l) \<noteq> None)
             (rev (filter (\<lambda>l. \<not> startswith (link_url l) ''./images/''
                               \<and> non_http (link_url l)) (finditer 0 c))) = [l]"
  shows "\<exists>t rp. pm (link_url l) = Some t
            \<and> (if dirname g \<noteq> [] then relpath wd t (dirname g) else Some t) = Some rp
            \<and> res_files (rewrite_pass pm wd [(g, c)])
                = [(g, take (nat (link_start l)) c @ replace_char (CHR 0x5C) CHR ''/'' rp
                       @ drop (nat (link_end l)) c)]"
    and "c = take (nat (link_start l)) c @ link_url l @ drop (nat (link_end l)) c"
proof -
  let ?ils = "filter (\<lambda>l. \<not> startswith (link_url l) ''./images/''
                          \<and> non_http (link_url l)) (finditer 0 c)"
  let ?K = "\<lambda>l. \<not> (endswith (link_url l) ''.md''
                     \<and> (CHR ''/'' \<in> set (link_url l) \<or> CHR 0x5C \<in> set (link_url l)))
                 \<and> pm (link_url l) \<noteq> None"
  let ?st = "\<lparr>fix_content = c, fix_fixed = [], fix_broken = [],
              file_updated = False, fix_raised = False\<rparr>"
  have "l \<in> set (filter ?K (rev ?ils))" using one by simp
  then have mem': "l \<in> set ?ils" by simp
  then have mem: "l \<in> set (finditer 0 c)" by simp
  have ne: "?ils \<noteq> []" using mem' by (metis empty_iff empty_set)
  note sp = finditer_target_span [OF mem]
  show "c = take (nat (link_start l)) c @ link_url l @ drop (nat (link_end l)) c" by (rule sp(3))
  from fix_links_one_kept [OF nr one, where wd = wd and f = g and st = ?st]
  obtain t rp where t: "pm (link_url l) = Some t"
    and rp: "(if dirname g \<noteq> [] then relpath wd t (dirname g) else Some t) = Some rp"
    and c': "fix_content (fix_links pm wd g (rev ?ils) ?st)
               = py_upto c (link_start l) @ replace_char (CHR 0x5C) CHR ''/'' rp
                 @ py_from c (link_end l)"
    and up: "file_updated (fix_links pm wd g (rev ?ils) ?st)"
    and nra: "\<not> fix_raised (fix_links pm wd g (rev ?ils) ?st)"
    by auto
  have e0: "0 \<le> link_end l" using sp(1,2) by simp
  have "res_files (rewrite_pass pm wd [(g, c)])
          = [(g, take (nat (link_start l)) c @ replace_char (CHR 0x5C) CHR ''/'' rp
                 @ drop (nat (link_end l)) c)]"
    using ne up nra c' py_upto_take [OF sp(1), of c] py_from_drop [OF e0, of c]
    by (simp add: rewrite_pass_single Let_def fix_file_def internal_links_descending)
  then show "\<exists>t rp. pm (link_url l) = Some t
            \<and> (if dirname g \<noteq> [] then relpath wd t (dirname g) else Some t) = Some rp
            \<and> res_files (rewrite_pass pm wd [(g, c)])
                = [(g, take (nat (link_start l)) c @ replace_char (CHR 0x5C) CHR ''/'' rp
                       @ drop (nat (link_end l)) c)]"
    using t rp by blast
qed

text \<open>
  C8, as stated: in \<open>[A](http://site/x)[B](http://site/y)\<close>, with both URLs in
  \<open>pages_map\<close>, both targets are replaced by relative paths. The scan classifies a
  target with scheme \<open>http\<close> or \<open>https\<close> as external and the rewrite pass never
  looks at it: the document stays as it is and nothing is reported as fixed.
\<close>

theorem adjacent_http_links_left_untouched:
  "rewrite_pass [''http://site/x'' \<mapsto> ''pages/x.md'', ''http://site/y'' \<mapsto> ''pages/y.md'']
     ''/srv/content'' [(''pages/doc.md'', ''[A](http://site/x)[B](http://site/y)'')]
   = \<lparr>res_files = [(''pages/doc.md'', ''[A](http://site/x)[B](http://site/y)'')],
      fixed_links = [], broken_links = []\<rparr>"
  by code_simp

text \<open>
  C8, amended. For the document of the claim the two links are recorded as external and
  the rewrite pass changes nothing, whatever \<open>pages_map\<close> holds. In any set of
  documents, every replacement the pass reports has a source without \<open>http\<close> or
  \<open>https\<close> scheme that is a key of \<open>pages_map\<close>, and its new target is the mapped path
  taken relative to the directory of the file (the mapped path itself for a file at the
  top), with backslashes replaced by slashes. \<open>_fix_internal_links\<close> takes the links of
  a file in the order of the sort, which is descending in the span start: the
  replacements it reports for a file are the replaced links in that order. For one
  document the scan yields the links with ascending span starts, and the replacements
  are reported from the last link of the document to the first. When no link of the
  document is replaced, the document is left as it is; when exactly one is, the new text
  is the old one with the span of that target replaced by the relative path. (These
  last statements are for a \<open>pages_map\<close> without empty paths, for which \<open>relpath\<close>
  does not raise, and for targets without brackets, for which the URL parser does not
  raise. What the adjusted end positions do to a second replacement in the same file is
  not part of this statement.)
\<close>

theorem rewrite_pass_replaces_internal_targets:
  "(let replaced = (\<lambda>l. \<not> (endswith (link_url l) ''.md''
                               \<and> (CHR ''/'' \<in> set (link_url l)
                                   \<or> CHR 0x5C \<in> set (link_url l)))
                           \<and> pm (link_url l) \<noteq> None);
        internal = (\<lambda>l. \<not> startswith (link_url l) ''./images/''
                          \<and> url_scheme (urlparse (link_url l)) \<notin> {''http'', ''https''});
        plain = ((\<forall>u. pm u \<noteq> Some [])
                 \<and> (\<forall>l \<in> set (finditer 0 c).
                        CHR ''['' \<notin> set (link_url l) \<and> CHR '']'' \<notin> set (link_url l)));
        todo = filter replaced (rev (filter internal (finditer 0 c)))
    in rewrite_pass pm wd [(f, ''[A](http://site/x)[B](http://site/y)'')]
         = \<lparr>res_files = [(f, ''[A](http://site/x)[B](http://site/y)'')],
            fixed_links = [], broken_links = []\<rparr>
     \<and> external_links (find_links_in_markdown [(f, ''[A](http://site/x)[B](http://site/y)'')]
                          \<lparr>internal_links = [], external_links = []\<rparr>)
         = [\<lparr>ext_from_file = f, ext_url = ''http://site/x'', ext_text = ''A''\<rparr>,
            \<lparr>ext_from_file = f, ext_url = ''http://site/y'', ext_text = ''B''\<rparr>]
     \<and> (\<forall>x \<in> set (fixed_links (rewrite_pass pm wd docs)).
            url_scheme (urlparse (fixed_from x)) \<notin> {''http'', ''https''}
            \<and> (\<exists>t rp. pm (fixed_from x) = Some t
                  \<and> (if dirname (fixed_file x) \<noteq> []
                      then relpath wd t (dirname (fixed_file x)) else Some t) = Some rp
                  \<and> fixed_to x = replace_char (CHR 0x5C) CHR ''/'' rp)
            \<and> CHR 0x5C \<notin> set (fixed_to x))
     \<and> sorted (rev (map link_start (sort_links ls)))
     \<and> set (sort_links ls) = set ls
     \<and> ((\<forall>u. pm u \<noteq> Some []) \<and> map_of (res_files r) g \<noteq> None \<longrightarrow>
           map (\<lambda>x. (fixed_from x, fixed_text x)) (fixed_links (fix_file pm wd g ls r))
             = map (\<lambda>x. (fixed_from x, fixed_text x)) (fixed_links r)
               @ map (\<lambda>l. (link_url l, link_text l)) (filter replaced (sort_links ls)))
     \<and> sorted_wrt (<) (map link_start (finditer 0 c))
     \<and> (plain \<longrightarrow>
           map (\<lambda>x. (fixed_from x, fixed_text x)) (fixed_links (rewrite_pass pm wd [(g, c)]))
             = map (\<lambda>l. (link_url l, link_text l)) todo)
     \<and> (plain \<and> todo = [] \<longrightarrow> res_files (rewrite_pass pm wd [(g, c)]) = [(g, c)])
     \<and> (\<forall>l. plain \<and> todo = [l] \<longrightarrow>
           c = take (nat (link_start l)) c @ link_url l @ drop (nat (link_end l)) c
           \<and> (\<exists>t rp. pm (link_url l) = Some t
                 \<and> (if dirname g \<noteq> [] then relpath wd t (dirname g) else Some t) = Some rp
                 \<and> res_files (rewrite_pass pm wd [(g, c)])
                     = [(g, take (nat (link_start l)) c
                            @ replace_char (CHR 0x5C) CHR ''/'' rp
                            @ drop (nat (link_end l)) c)])))"
  unfolding Let_def
proof (intro conjI)
  show "rewrite_pass pm wd [(f, ''[A](http://site/x)[B](http://site/y)'')]
     = \<lparr>res_files = [(f, ''[A](http://site/x)[B](http://site/y)'')],
        fixed_links = [], broken_links = []\<rparr>"
    by code_simp
  show "external_links (find_links_in_markdown [(f, ''[A](http://site/x)[B](http://site/y)'')]
                        \<lparr>internal_links = [], external_links = []\<rparr>)
     = [\<lparr>ext_from_file = f, ext_url = ''http://site/x'', ext_text = ''A''\<rparr>,
        \<lparr>ext_from_file = f, ext_url = ''http://site/y'', ext_text = ''B''\<rparr>]"
    by code_simp
  show "\<forall>x \<in> set (fixed_links (rewrite_pass pm wd docs)).
          url_scheme (urlparse (fixed_from x)) \<notin> {''http'', ''https''}
          \<and> (\<exists>t rp. pm (fixed_from x) = Some t
                \<and> (if dirname (fixed_file x) \<noteq> []
                    then relpath wd t (dirname (fixed_file x)) else Some t) = Some rp
                \<and> fixed_to x = replace_char (CHR 0x5C) CHR ''/'' rp)
          \<and> CHR 0x5C \<notin> set (fixed_to x)"
  proof
    fix x assume x: "x \<in> set (fixed_links (rewrite_pass pm wd docs))"
    from rewrite_pass_reports [of pm wd docs] x
    have a: "non_http (fixed_from x)"
      and b: "\<exists>t rp. pm (fixed_from x) = Some t
                \<and> (if dirname (fixed_file x) \<noteq> []
                    then relpath wd t (dirname (fixed_file x)) else Some t) = Some rp
                \<and> fixed_to x = replace_char (CHR 0x5C) CHR ''/'' rp"
      by blast+
    from b have "CHR 0x5C \<notin> set (fixed_to x)"
      using replace_char_removes [of "CHR 0x5C" "CHR ''/''"] by auto
    with a b show "url_scheme (urlparse (fixed_from x)) \<notin> {''http'', ''https''}
          \<and> (\<exists>t rp. pm (fixed_from x) = Some t
                \<and> (if dirname (fixed_file x) \<noteq> []
                    then relpath wd t (dirname (fixed_file x)) else Some t) = Some rp
                \<and> fixed_to x = replace_char (CHR 0x5C) CHR ''/'' rp)
          \<and> CHR 0x5C \<notin> set (fixed_to x)"
      by (simp only: non_http_def simp_thms)
  qed
  show "sorted (rev (map link_start (sort_links ls)))" by (rule sort_links_descending)
  show "set (sort_links ls) = set ls" by (rule set_sort_links)
  show "(\<forall>u. pm u \<noteq> Some []) \<and> map_of (res_files r) g \<noteq> None \<longrightarrow>
         map (\<lambda>x. (fixed_from x, fixed_text x)) (fixed_links (fix_file pm wd g ls r))
           = map (\<lambda>x. (fixed_from x, fixed_text x)) (fixed_links r)
             @ map (\<lambda>l. (link_url l, link_text l))
                 (filter (\<lambda>l. \<not> (endswith (link_url l) ''.md''
                                 \<and> (CHR ''/'' \<in> set (link_url l)
                                     \<or> CHR 0x5C \<in> set (link_url l)))
                             \<and> pm (link_url l) \<noteq> None)
                    (sort_links ls))"
    using fix_file_order [of pm r g wd ls] by blast
  show "sorted_wrt (<) (map link_start (finditer 0 c))"
    using finditer_ascending [of 0 c] by blast
  show "(\<forall>u. pm u \<noteq> Some [])
        \<and> (\<forall>l \<in> set (finditer 0 c).
               CHR ''['' \<notin> set (link_url l) \<and> CHR '']'' \<notin> set (link_url l)) \<longrightarrow>
         map (\<lambda>x. (fixed_from x, fixed_text x)) (fixed_links (rewrite_pass pm wd [(g, c)]))
           = map (\<lambda>l. (link_url l, link_text l))
               (filter (\<lambda>l. \<not> (endswith (link_url l) ''.md''
                                 \<and> (CHR ''/'' \<in> set (link_url l)
                                     \<or> CHR 0x5C \<in> set (link_url l)))
                             \<and> pm (link_url l) \<noteq> None)
                  (rev (filter (\<lambda>l. \<not> startswith (link_url l) ''./images/''
                                     \<and> url_scheme (urlparse (link_url l))
                                         \<notin> {''http'', ''https''})
                          (finditer 0 c))))"
    using rewrite_pass_order [of pm wd g c] by (simp only: non_http_def) blast
  show "((\<forall>u. pm u \<noteq> Some [])
        \<and> (\<forall>l \<in> set (finditer 0 c).
               CHR ''['' \<notin> set (link_url l) \<and> CHR '']'' \<notin> set (link_url l)))
        \<and> filter (\<lambda>l. \<not> (endswith (link_url l) ''.md''
                                 \<and> (CHR ''/'' \<in> set (link_url l)
                                     \<or> CHR 0x5C \<in> set (link_url l)))
                             \<and> pm (link_url l) \<noteq> None)
              (rev (filter (\<lambda>l. \<not> startswith (link_url l) ''./images/''
                                 \<and> url_scheme (urlparse (link_url l))
                                     \<notin> {''http'', ''https''})
                      (finditer 0 c))) = [] \<longrightarrow>
         res_files (rewrite_pass pm wd [(g, c)]) = [(g, c)]"
    using rewrite_pass_none_kept [of pm c wd g] by (simp only: non_http_def) blast
  show "\<forall>l. ((\<forall>u. pm u \<noteq> Some [])
        \<and> (\<forall>l \<in> set (finditer 0 c).
               CHR ''['' \<notin> set (link_url l) \<and> CHR '']'' \<notin> set (link_url l)))
        \<and> filter (\<lambda>l. \<not> (endswith (link_url l) ''.md''
                                 \<and> (CHR ''/'' \<in> set (link_url l)
                                     \<or> CHR 0x5C \<in> set (link_url l)))
                             \<and> pm (link_url l) \<noteq> None)
              (rev (filter (\<lambda>l. \<not> startswith (link_url l) ''./images/''
                                 \<and> url_scheme (urlparse (link_url l))
                                     \<notin> {''http'', ''https''})
                      (finditer 0 c))) = [l] \<longrightarrow>
           c = take (nat (link_start l)) c @ link_url l @ drop (nat (link_end l)) c
           \<and> (\<exists>t rp. pm (link_url l) = Some t
                 \<and> (if dirname g \<noteq> [] then relpath wd t (dirname g) else Some t) = Some rp
                 \<and> res_files (rewrite_pass pm wd [(g, c)])
                     = [(g, take (nat (link_start l)) c
                            @ replace_char (CHR 0x5C) CHR ''/'' rp
                            @ drop (nat (link_end l)) c)])"
    using rewrite_pass_one_kept(1) [where pm = pm and c = c and wd = wd and g = g]
      rewrite_pass_one_kept(2) [where pm = pm and c = c]
    by (simp only: non_http_def) blast
qed


theorem rewrite_pass_replaces_internal_targets_witness:
  "[''/a'' \<mapsto> ''pages/alpha.md'', ''/c'' \<mapsto> ''pages/sub/gamma.md''] ''/a'' = Some ''pages/alpha.md''
   \<and> finditer 0 ''[A](/a)[B](/zz)[C](/c)''
     = [\<lparr>link_url = ''/a'', link_text = ''A'', link_start = 4, link_end = 6\<rparr>,
        \<lparr>link_url = ''/zz'', link_text = ''B'', link_start = 11, link_end = 14\<rparr>,
        \<lparr>link_url = ''/c'', link_text = ''C'', link_start = 19, link_end = 21\<rparr>]
   \<and> map (\<lambda>x. (fixed_from x, fixed_text x))
         (fixed_links (rewrite_pass [''/a'' \<mapsto> ''pages/alpha.md'', ''/c'' \<mapsto> ''pages/sub/gamma.md''] ''/srv/content''
                         [(''pages/doc.md'', ''[A](/a)[B](/zz)[C](/c)'')]))
     = [(''/c'', ''C''), (''/a'', ''A'')]
   \<and> finditer 0 ''See [A](/a) and [B](/zz).''
     = [\<lparr>link_url = ''/a'', link_text = ''A'', link_start = 8, link_end = 10\<rparr>,
        \<lparr>link_url = ''/zz'', link_text = ''B'', link_start = 20, link_end = 23\<rparr>]
   \<and> res_files (rewrite_pass [''/a'' \<mapsto> ''pages/alpha.md'', ''/c'' \<mapsto> ''pages/sub/gamma.md''] ''/srv/content''
                    [(''pages/doc.md'', ''See [A](/a) and [B](/zz).'')])
     = [(''pages/doc.md'', ''See [A](alpha.md) and [B](/zz).'')]"
proof -
  have nr: "\<forall>u. [''/a'' \<mapsto> ''pages/alpha.md'', ''/c'' \<mapsto> ''pages/sub/gamma.md''] u \<noteq> Some []"
    by auto
  have m: "[''/a'' \<mapsto> ''pages/alpha.md'', ''/c'' \<mapsto> ''pages/sub/gamma.md''] ''/a'' = Some ''pages/alpha.md''"
    by simp
  have f2: "finditer 0 ''[A](/a)[B](/zz)[C](/c)''
     = [\<lparr>link_url = ''/a'', link_text = ''A'', link_start = 4, link_end = 6\<rparr>,
        \<lparr>link_url = ''/zz'', link_text = ''B'', link_start = 11, link_end = 14\<rparr>,
        \<lparr>link_url = ''/c'', link_text = ''C'', link_start = 19, link_end = 21\<rparr>]"
    by code_simp
  have b2: "\<forall>l \<in> set (finditer 0 ''[A](/a)[B](/zz)[C](/c)'').
              CHR ''['' \<notin> set (link_url l) \<and> CHR '']'' \<notin> set (link_url l)"
    unfolding f2 by simp
  have t2: "filter (\<lambda>l. \<not> (endswith (link_url l) ''.md''
                         \<and> (CHR ''/'' \<in> set (link_url l) \<or> CHR 0x5C \<in> set (link_url l)))
                     \<and> [''/a'' \<mapsto> ''pages/alpha.md'', ''/c'' \<mapsto> ''pages/sub/gamma.md''] (link_url l) \<noteq> None)
              (rev (filter (\<lambda>l. \<not> startswith (link_url l) ''./images/''
                              \<and> url_scheme (urlparse (link_url l)) \<notin> {''http'', ''https''})
                      (finditer 0 ''[A](/a)[B](/zz)[C](/c)'')))
     = [\<lparr>link_url = ''/c'', link_text = ''C'', link_start = 19, link_end = 21\<rparr>,
        \<lparr>link_url = ''/a'', link_text = ''A'', link_start = 4, link_end = 6\<rparr>]"
    by code_simp
  note T2 = rewrite_pass_replaces_internal_targets
      [where pm = "[''/a'' \<mapsto> ''pages/alpha.md'', ''/c'' \<mapsto> ''pages/sub/gamma.md'']" and wd = "''/srv/content''" and g = "''pages/doc.md''"
         and c = "''[A](/a)[B](/zz)[C](/c)''", unfolded Let_def]
  note order = T2 [THEN conjunct2, THEN conjunct2, THEN conjunct2, THEN conjunct2,
                   THEN conjunct2, THEN conjunct2, THEN conjunct2, THEN conjunct1]
  have o2: "map (\<lambda>x. (fixed_from x, fixed_text x))
         (fixed_links (rewrite_pass [''/a'' \<mapsto> ''pages/alpha.md'', ''/c'' \<mapsto> ''pages/sub/gamma.md''] ''/srv/content''
                         [(''pages/doc.md'', ''[A](/a)[B](/zz)[C](/c)'')]))
     = [(''/c'', ''C''), (''/a'', ''A'')]"
    using order nr b2 by (simp only: t2) simp
  have f1: "finditer 0 ''See [A](/a) and [B](/zz).''
     = [\<lparr>link_url = ''/a'', link_text = ''A'', link_start = 8, link_end = 10\<rparr>,
        \<lparr>link_url = ''/zz'', link_text = ''B'', link_start = 20, link_end = 23\<rparr>]"
    by code_simp
  have b1: "\<forall>l \<in> set (finditer 0 ''See [A](/a) and [B](/zz).'').
              CHR ''['' \<notin> set (link_url l) \<and> CHR '']'' \<notin> set (link_url l)"
    unfolding f1 by simp
  have t1: "filter (\<lambda>l. \<not> (endswith (link_url l) ''.md''
                         \<and> (CHR ''/'' \<in> set (link_url l) \<or> CHR 0x5C \<in> set (link_url l)))
                     \<and> [''/a'' \<mapsto> ''pages/alpha.md'', ''/c'' \<mapsto> ''pages/sub/gamma.md''] (link_url l) \<noteq> None)
              (rev (filter (\<lambda>l. \<not> startswith (link_url l) ''./images/''
                              \<and> url_scheme (urlparse (link_url l)) \<notin> {''http'', ''https''})
                      (finditer 0 ''See [A](/a) and [B](/zz).'')))
     = [\<lparr>link_url = ''/a'', link_text = ''A'', link_start = 8, link_end = 10\<rparr>]"
    by code_simp
  note T1 = rewrite_pass_replaces_internal_targets
      [where pm = "[''/a'' \<mapsto> ''pages/alpha.md'', ''/c'' \<mapsto> ''pages/sub/gamma.md'']" and wd = "''/srv/content''" and g = "''pages/doc.md''"
         and c = "''See [A](/a) and [B](/zz).''", unfolded Let_def]
  note single = T1 [THEN conjunct2, THEN conjunct2, THEN conjunct2, THEN conjunct2,
                    THEN conjunct2, THEN conjunct2, THEN conjunct2, THEN conjunct2,
                    THEN conjunct2, THEN spec,
                    of "\<lparr>link_url = ''/a'', link_text = ''A'', link_start = 8, link_end = 10\<rparr>"]
  from single nr b1 t1
  obtain t rp where t: "[''/a'' \<mapsto> ''pages/alpha.md'', ''/c'' \<mapsto> ''pages/sub/gamma.md''] ''/a'' = Some t"
    and rp: "(if dirname ''pages/doc.md'' \<noteq> []
              then relpath ''/srv/content'' t (dirname ''pages/doc.md'') else Some t) = Some rp"
    and r: "res_files (rewrite_pass [''/a'' \<mapsto> ''pages/alpha.md'', ''/c'' \<mapsto> ''pages/sub/gamma.md''] ''/srv/content''
                    [(''pages/doc.md'', ''See [A](/a) and [B](/zz).'')])
            = [(''pages/doc.md'', take (nat 8) ''See [A](/a) and [B](/zz).''
                   @ replace_char (CHR 0x5C) CHR ''/'' rp
                   @ drop (nat 10) ''See [A](/a) and [B](/zz).'')]"
    by auto
  have tv: "t = ''pages/alpha.md''" using t by simp
  have e: "(if dirname ''pages/doc.md'' \<noteq> []
         then relpath ''/srv/content'' ''pages/alpha.md'' (dirname ''pages/doc.md'')
         else Some ''pages/alpha.md'') = Some ''alpha.md''"
    by code_simp
  have "Some rp = Some ''alpha.md''"
    using rp [unfolded tv, symmetric] e by (rule trans)
  then have rv: "rp = ''alpha.md''" by (simp only: option.inject)
  have rc: "replace_char (CHR 0x5C) CHR ''/'' ''alpha.md'' = ''alpha.md''"
    by code_simp
  have r1: "res_files (rewrite_pass [''/a'' \<mapsto> ''pages/alpha.md'', ''/c'' \<mapsto> ''pages/sub/gamma.md''] ''/srv/content''
                    [(''pages/doc.md'', ''See [A](/a) and [B](/zz).'')])
     = [(''pages/doc.md'', ''See [A](alpha.md) and [B](/zz).'')]"
    using r by (simp add: rv rc)
  from m f2 o2 f1 r1 show ?thesis by (intro conjI)
qed

section \<open>Media are recorded and never lost\<close>

lemma grows_refl: "grows st st"
  by (simp add: grows_def)

lemma grows_trans: "grows a b \<Longrightarrow> grows b c \<Longrightarrow> grows a c"
  unfolding grows_def by blast

lemma grows_same:
  "files st' = files st \<Longrightarrow> dirs st' = dirs st \<Longrightarrow> downloaded_urls st' = downloaded_urls st
   \<Longrightarrow> grows st st'"
  by (simp add: grows_def)

lemma grows_send: "grows st (snd (send e rq st))"
  by (simp add: grows_def send_def)

lemma grows_ensure_dir: "grows st (ensure_dir e st p)"
  by (auto simp: grows_def ensure_dir_def)

lemma grows_write_file: "grows st (write_file e st p d)"
  by (simp add: grows_def write_file_def update_conv')

lemma downloaded_urls_basic:
  "downloaded_urls (snd (send e rq st)) = downloaded_urls st"
  "downloaded_urls (ensure_dir e st p) = downloaded_urls st"
  "downloaded_urls (write_file e st p d) = downloaded_urls st"
  by (simp_all add: send_def ensure_dir_def write_file_def)

lemma is_same_file_grows:
  "grows st (snd (is_same_file e url fp st))"
  "downloaded_urls (snd (is_same_file e url fp st)) = downloaded_urls st"
  by (simp_all add: is_same_file_def send_def Let_def grows_def
           split: http_outcome.splits length_header.splits option.splits)

lemma media_stop:
  "\<not> int retries \<le> max_retries cfg \<Longrightarrow> media_fetch cfg e url fp retries st = (None, st)"
  by (subst media_fetch.simps) simp

lemma media_exception:
  "int retries \<le> max_retries cfg \<Longrightarrow> fst (send e (GET url) st) = RequestException sc msg \<Longrightarrow>
   media_fetch cfg e url fp retries st
     = media_fetch cfg e url fp (Suc retries) (snd (send e (GET url) st))"
  by (subst media_fetch.simps) (simp add: split_beta)

lemma media_error_status:
  "int retries \<le> max_retries cfg \<Longrightarrow> fst (send e (GET url) st) = Response r \<Longrightarrow>
   raises_for_status r \<Longrightarrow>
   media_fetch cfg e url fp retries st
     = media_fetch cfg e url fp (Suc retries) (snd (send e (GET url) st))"
  by (subst media_fetch.simps) (simp add: split_beta)

lemma media_stream_error:
  "int retries \<le> max_retries cfg \<Longrightarrow> fst (send e (GET url) st) = Response r \<Longrightarrow>
   \<not> raises_for_status r \<Longrightarrow> stream_error r \<Longrightarrow>
   media_fetch cfg e url fp retries st
     = media_fetch cfg e url fp (Suc retries)
         (write_file e (snd (send e (GET url) st)) fp (body r))"
  by (subst media_fetch.simps) (simp add: split_beta)

lemma media_done:
  "int retries \<le> max_retries cfg \<Longrightarrow> fst (send e (GET url) st) = Response r \<Longrightarrow>
   \<not> raises_for_status r \<Longrightarrow> \<not> stream_error r \<Longrightarrow>
   media_fetch cfg e url fp retries st
     = (Some (MediaDownloaded url fp (length (body r)) (content_type r)),
        (write_file e (snd (send e (GET url) st)) fp (body r))
          \<lparr>media_download_info :=
             media_download_info (write_file e (snd (send e (GET url) st)) fp (body r)) @
             [\<lparr>mi_url = url, mi_file_path = fp, mi_content_type = content_type r,
               mi_size = length (body r)\<rparr>],
           downloaded_urls :=
             (downloaded_urls (write_file e (snd (send e (GET url) st)) fp (body r)))
               (get_url_key url \<mapsto> fp)\<rparr>)"
  by (subst media_fetch.simps) (simp add: split_beta Let_def)

text \<open>An invariant of the retry loop of \<open>download_media\<close>.\<close>

lemma media_fetch_rule:
  assumes sent: "\<And>s. P s \<Longrightarrow> P (snd (send e (GET url) s))"
    and wrote: "\<And>s d. P s \<Longrightarrow> P (write_file e s fp d)"
    and gave_up: "\<And>s. P s \<Longrightarrow> Q None s"
    and finished: "\<And>s (r::response) mi. P s \<Longrightarrow>
        Q (Some (MediaDownloaded url fp (length (body r)) (content_type r)))
          (s\<lparr>media_download_info := mi,
             downloaded_urls := (downloaded_urls s)(get_url_key url \<mapsto> fp)\<rparr>)"
  shows "P st \<Longrightarrow> Q (fst (media_fetch cfg e url fp retries st))
                     (snd (media_fetch cfg e url fp retries st))"
proof (induction "nat (max_retries cfg + 1 - int retries)" arbitrary: retries st)
  case 0
  then have "\<not> int retries \<le> max_retries cfg" by simp
  then show ?case using gave_up [OF \<open>P st\<close>] by (simp add: media_stop)
next
  case (Suc n)
  from Suc.hyps(2) have more: "int retries \<le> max_retries cfg" by simp
  have next_n: "n = nat (max_retries cfg + 1 - int (Suc retries))"
    using Suc.hyps(2) by simp
  let ?st1 = "snd (send e (GET url) st)"
  have p1: "P ?st1" using sent [OF \<open>P st\<close>] .
  show ?case
  proof (cases "fst (send e (GET url) st)")
    case (RequestException sc msg)
    show ?thesis
      using Suc.hyps(1) [OF next_n p1]
      by (simp only: media_exception [OF more RequestException])
  next
    case (Response r)
    show ?thesis
    proof (cases "raises_for_status r")
      case True
      show ?thesis
        using Suc.hyps(1) [OF next_n p1]
        by (simp only: media_error_status [OF more Response True])
    next
      case ok: False
      have p2: "P (write_file e ?st1 fp (body r))" using wrote [OF p1] .
      show ?thesis
      proof (cases "stream_error r")
        case True
        show ?thesis
          using Suc.hyps(1) [OF next_n p2]
          by (simp only: media_stream_error [OF more Response ok True])
      next
        case False
        show ?thesis
          using finished [OF p2, of r]
          by (simp only: media_done [OF more Response ok False] fst_conv snd_conv)
      qed
    qed
  qed
qed

lemma media_fetch_grows:
  assumes "downloaded_urls st (get_url_key url) = None"
  shows "grows st (snd (media_fetch cfg e url fp retries st))"
proof -
  let ?P = "\<lambda>s::run_state. grows st s \<and> downloaded_urls s (get_url_key url) = None"
  have "grows st (snd (media_fetch cfg e url fp retries st))"
  proof (rule media_fetch_rule [where P = ?P and Q = "\<lambda>res s. grows st s"])
    show "?P st" using assms by (simp add: grows_refl)
  next
    fix s assume "?P s"
    then show "?P (snd (send e (GET url) s))"
      using grows_send [of s e "GET url"] grows_trans by (auto simp: downloaded_urls_basic)
  next
    fix s d assume "?P s"
    then show "?P (write_file e s fp d)"
      using grows_write_file [of s e fp d] grows_trans by (auto simp: downloaded_urls_basic)
  next
    fix s assume "?P s"
    then show "grows st s" by simp
  next
    fix s and r :: response and mi assume p: "?P s"
    then have "grows s (s\<lparr>media_download_info := mi,
             downloaded_urls := (downloaded_urls s)(get_url_key url \<mapsto> fp)\<rparr>)"
      by (auto simp: grows_def)
    then show "grows st (s\<lparr>media_download_info := mi,
             downloaded_urls := (downloaded_urls s)(get_url_key url \<mapsto> fp)\<rparr>)"
      using p grows_trans by blast
  qed
  then show ?thesis .
qed

text \<open>What the retry loop of \<open>download_media\<close> records.\<close>

lemma media_fetch_records:
  "fst (media_fetch cfg e url fp retries st) = Some r \<Longrightarrow>
   media_result_path r = fp
   \<and> downloaded_urls (snd (media_fetch cfg e url fp retries st)) (get_url_key url) = Some fp"
proof -
  let ?Q = "\<lambda>res (s::run_state). \<forall>r. res = Some r \<longrightarrow> media_result_path r = fp
              \<and> downloaded_urls s (get_url_key url) = Some fp"
  have "?Q (fst (media_fetch cfg e url fp retries st)) (snd (media_fetch cfg e url fp retries st))"
    by (rule media_fetch_rule [where P = "\<lambda>s. True" and Q = ?Q])
       (simp_all add: media_result_path_def)
  then show "fst (media_fetch cfg e url fp retries st) = Some r \<Longrightarrow>
   media_result_path r = fp
   \<and> downloaded_urls (snd (media_fetch cfg e url fp retries st)) (get_url_key url) = Some fp"
    by simp
qed


lemma grows_then:
  "grows st s \<Longrightarrow> grows st (ensure_dir e s p)"
  "grows st s \<Longrightarrow> grows st (write_file e s p d)"
  "grows st s \<Longrightarrow> grows st (snd (send e rq s))"
  "grows st s \<Longrightarrow> grows st (snd (is_same_file e url fp s))"
  "grows st s \<Longrightarrow> downloaded_urls s (get_url_key url) = None \<Longrightarrow>
     grows st (snd (media_fetch cfg e url fp retries s))"
  "grows st s \<Longrightarrow> downloaded_urls s k = None \<Longrightarrow>
     grows st (s\<lparr>downloaded_urls := (downloaded_urls s)(k \<mapsto> v)\<rparr>)"
  using grows_ensure_dir [of s e p] grows_write_file [of s e p d] grows_send [of s e rq]
    is_same_file_grows(1) [of s e url fp] media_fetch_grows [of s url cfg e fp retries]
    grows_trans [of st s]
  by (auto simp: grows_def)

lemma download_media_hit:
  "is_same_domain url base_url \<Longrightarrow> downloaded_urls st (get_url_key url) = Some p \<Longrightarrow>
   download_media cfg e url site_dir base_url st = (Some (MediaExists url p), st)"
  by (simp add: download_media_def)

lemma ensure_dir_shape: "\<exists>D. dirs st \<subseteq> D \<and> ensure_dir e st p = st\<lparr>dirs := D\<rparr>"
proof (cases "path_exists e st p")
  case True
  then have "ensure_dir e st p = st\<lparr>dirs := dirs st\<rparr>" by (simp add: ensure_dir_def)
  then show ?thesis by blast
next
  case False
  then have "ensure_dir e st p = st\<lparr>dirs := dirs st \<union> set (dir_chain (abspath (cwd e) p))\<rparr>"
    by (simp add: ensure_dir_def)
  then show ?thesis by blast
qed

text \<open>The ways \<open>download_media\<close> can go for a same-domain URL that is not yet in
  \<open>downloaded_urls\<close>: after creating directories it either fetches to the computed path,
  or finds the path occupied and then reuses the file or fetches to a renamed path.\<close>

lemma download_media_miss:
  assumes dom: "is_same_domain url base_url"
    and miss: "downloaded_urls st (get_url_key url) = None"
  shows "\<exists>D s2 fp fp'. dirs st \<subseteq> D \<and> s2 = st\<lparr>dirs := D\<rparr> \<and>
      (download_media cfg e url site_dir base_url st = media_fetch cfg e url fp 0 s2
       \<or> download_media cfg e url site_dir base_url st
           = (Some (MediaExists url fp),
              (snd (is_same_file e url fp s2))
                \<lparr>downloaded_urls :=
                   (downloaded_urls (snd (is_same_file e url fp s2)))(get_url_key url \<mapsto> fp)\<rparr>)
       \<or> download_media cfg e url site_dir base_url st
           = media_fetch cfg e url fp' 0 (snd (is_same_file e url fp s2)))"
proof -
  define html_dir where "html_dir = path_join site_dir ''HTML''"
  define st1 where "st1 = ensure_dir e st html_dir"
  define pth where "pth = strip_char CHR ''/'' (url_path (urlparse url))"
  define path_parts where "path_parts = split_on CHR ''/'' pth"
  define filename where
    "filename = (if pth = [] then ''media_'' @ hash_str e url else last path_parts)"
  define rel_path where
    "rel_path = (if pth \<noteq> [] \<and> length path_parts > 1
                 then path_join_all (hd path_parts) (tl (butlast path_parts)) else [])"
  define full_media_path where "full_media_path = path_join html_dir rel_path"
  define st2 where "st2 = (if rel_path \<noteq> [] then ensure_dir e st1 full_media_path else st1)"
  define file_path where
    "file_path = (if rel_path \<noteq> [] then path_join full_media_path filename
                  else path_join html_dir filename)"
  define renamed where
    "renamed = fst (splitext filename) @ ''_'' @ md5_hex8 e url @ snd (splitext filename)"
  define file_path' where
    "file_path' = (if rel_path \<noteq> [] then path_join full_media_path renamed
                   else path_join html_dir renamed)"
  have unfold: "download_media cfg e url site_dir base_url st
      = (if path_exists e st2 file_path
         then (if fst (is_same_file e url file_path st2)
               then (Some (MediaExists url file_path),
                     (snd (is_same_file e url file_path st2))
                       \<lparr>downloaded_urls :=
                          (downloaded_urls (snd (is_same_file e url file_path st2)))
                            (get_url_key url \<mapsto> file_path)\<rparr>)
               else media_fetch cfg e url file_path' 0 (snd (is_same_file e url file_path st2)))
         else media_fetch cfg e url file_path 0 st2)"
    unfolding download_media_def Let_def html_dir_def st1_def pth_def path_parts_def
      filename_def rel_path_def full_media_path_def st2_def file_path_def renamed_def
      file_path'_def
    using dom miss
    by (simp add: split_beta split: bool.splits)
  obtain D1 where D1: "dirs st \<subseteq> D1" "st1 = st\<lparr>dirs := D1\<rparr>"
    using ensure_dir_shape [of st e html_dir] st1_def by auto
  obtain D2 where D2: "dirs st1 \<subseteq> D2" "ensure_dir e st1 full_media_path = st1\<lparr>dirs := D2\<rparr>"
    using ensure_dir_shape [of st1 e full_media_path] by auto
  have "\<exists>D. dirs st \<subseteq> D \<and> st2 = st\<lparr>dirs := D\<rparr>"
  proof (cases "rel_path \<noteq> []")
    case True
    then have "st2 = st\<lparr>dirs := D2\<rparr>" using D1 D2 by (simp add: st2_def)
    moreover have "dirs st \<subseteq> D2" using D1 D2 by simp
    ultimately show ?thesis by blast
  next
    case False
    then show ?thesis using D1 by (auto simp: st2_def)
  qed
  then obtain D where D: "dirs st \<subseteq> D" "st2 = st\<lparr>dirs := D\<rparr>" by blast
  show ?thesis
    using unfold D by (intro exI [of _ D] exI [of _ st2] exI [of _ file_path] exI [of _ file_path']) auto
qed

lemma download_media_grows:
  "grows st (snd (download_media cfg e url site_dir base_url st))"
proof (cases "is_same_domain url base_url")
  case False
  then show ?thesis by (simp add: download_media_def grows_refl)
next
  case dom: True
  show ?thesis
  proof (cases "downloaded_urls st (get_url_key url)")
    case (Some p)
    then show ?thesis using download_media_hit [OF dom Some] by (simp add: grows_refl)
  next
    case None
    from download_media_miss [OF dom None, of cfg e site_dir]
    obtain D s2 fp fp' where D: "dirs st \<subseteq> D" "s2 = st\<lparr>dirs := D\<rparr>"
      and alt: "download_media cfg e url site_dir base_url st = media_fetch cfg e url fp 0 s2
       \<or> download_media cfg e url site_dir base_url st
           = (Some (MediaExists url fp),
              (snd (is_same_file e url fp s2))
                \<lparr>downloaded_urls :=
                   (downloaded_urls (snd (is_same_file e url fp s2)))(get_url_key url \<mapsto> fp)\<rparr>)
       \<or> download_media cfg e url site_dir base_url st
           = media_fetch cfg e url fp' 0 (snd (is_same_file e url fp s2))"
      by blast
    let ?s3 = "snd (is_same_file e url fp s2)"
    have g2: "grows st s2" using D by (auto simp: grows_def)
    have k2: "downloaded_urls s2 (get_url_key url) = None" using D None by simp
    have g3: "grows st ?s3" using g2 by (rule grows_then)
    have k3: "downloaded_urls ?s3 (get_url_key url) = None"
      using k2 by (simp add: is_same_file_grows(2))
    from alt show ?thesis
    proof (elim disjE)
      assume "download_media cfg e url site_dir base_url st = media_fetch cfg e url fp 0 s2"
      then show ?thesis using grows_then(5) [OF g2 k2] by simp
    next
      assume "download_media cfg e url site_dir base_url st
           = (Some (MediaExists url fp),
              ?s3\<lparr>downloaded_urls := (downloaded_urls ?s3)(get_url_key url \<mapsto> fp)\<rparr>)"
      then show ?thesis using grows_then(6) [OF g3 k3] by simp
    next
      assume "download_media cfg e url site_dir base_url st
           = media_fetch cfg e url fp' 0 ?s3"
      then show ?thesis using grows_then(5) [OF g3 k3] by simp
    qed
  qed
qed

lemma download_media_records:
  assumes "fst (download_media cfg e url site_dir base_url st) = Some r"
  shows "downloaded_urls (snd (download_media cfg e url site_dir base_url st)) (get_url_key url)
     = Some (media_result_path r)"
proof (cases "is_same_domain url base_url")
  case False
  then show ?thesis using assms by (simp add: download_media_def)
next
  case dom: True
  show ?thesis
  proof (cases "downloaded_urls st (get_url_key url)")
    case (Some p)
    then show ?thesis
      using download_media_hit [OF dom Some, of cfg e site_dir] assms
      by (auto simp: media_result_path_def)
  next
    case None
    from download_media_miss [OF dom None, of cfg e site_dir]
    obtain D :: "string set" and s2 fp fp' where
      alt: "download_media cfg e url site_dir base_url st = media_fetch cfg e url fp 0 s2
       \<or> download_media cfg e url site_dir base_url st
           = (Some (MediaExists url fp),
              (snd (is_same_file e url fp s2))
                \<lparr>downloaded_urls :=
                   (downloaded_urls (snd (is_same_file e url fp s2)))(get_url_key url \<mapsto> fp)\<rparr>)
       \<or> download_media cfg e url site_dir base_url st
           = media_fetch cfg e url fp' 0 (snd (is_same_file e url fp s2))"
      by blast
    from alt show ?thesis
    proof (elim disjE)
      assume eq: "download_media cfg e url site_dir base_url st = media_fetch cfg e url fp 0 s2"
      then show ?thesis using media_fetch_records [of cfg e url fp 0 s2 r] assms by simp
    next
      assume "download_media cfg e url site_dir base_url st
           = (Some (MediaExists url fp),
              (snd (is_same_file e url fp s2))
                \<lparr>downloaded_urls :=
                   (downloaded_urls (snd (is_same_file e url fp s2)))(get_url_key url \<mapsto> fp)\<rparr>)"
      then show ?thesis using assms by (auto simp: media_result_path_def)
    next
      assume eq: "download_media cfg e url site_dir base_url st
           = media_fetch cfg e url fp' 0 (snd (is_same_file e url fp s2))"
      then show ?thesis
        using media_fetch_records [of cfg e url fp' 0 "snd (is_same_file e url fp s2)" r] assms
        by simp
    qed
  qed
qed


lemma download_media_list_grows:
  "grows st (snd (download_media_list cfg e site_dir base_url urls acc st))"
proof (induction urls arbitrary: acc st)
  case Nil
  show ?case by (simp add: grows_refl)
next
  case (Cons u us)
  let ?s1 = "snd (download_media cfg e u site_dir base_url st)"
  have "grows st ?s1" by (rule download_media_grows)
  moreover have "grows ?s1 (snd (download_media_list cfg e site_dir base_url us acc' ?s1))" for acc'
    by (rule Cons.IH)
  ultimately have "grows st (snd (download_media_list cfg e site_dir base_url us acc' ?s1))" for acc'
    using grows_trans by blast
  then show ?case
    by (cases "download_media cfg e u site_dir base_url st") (auto split: option.splits)
qed

lemma download_all_media_grows:
  "grows st (snd (download_all_media cfg e html base_url site_dir st))"
  by (simp add: download_all_media_def Let_def split_beta download_media_list_grows)

lemma grows_field_updates:
  "grows st s \<Longrightarrow> grows st (s\<lparr>media_download_info := mi\<rparr>)"
  "grows st s \<Longrightarrow> grows st (s\<lparr>session_logs := sl\<rparr>)"
  "grows st s \<Longrightarrow> grows st (s\<lparr>all_urls := au\<rparr>)"
  "grows st s \<Longrightarrow> grows st (s\<lparr>request_count := rc\<rparr>)"
  "grows st s \<Longrightarrow> grows st (count_status c s)"
  "grows st s \<Longrightarrow> grows st (on_retry_status cfg s)"
  "grows st s \<Longrightarrow> grows st (on_exception cfg url n status msg s)"
  by (cases status; simp add: grows_def count_status_def on_retry_status_def on_exception_def
        penalize_def Let_def)+

lemma grows_download_all_media_then:
  "grows st s \<Longrightarrow> grows st (snd (download_all_media cfg e html base_url site_dir s))"
  using download_all_media_grows grows_trans by blast

lemma save_page_grows: "grows st (snd (save_page cfg e url dir wm r st))"
  by (simp add: save_page_def Let_def split_beta grows_refl grows_then grows_field_updates
                grows_download_all_media_then)

lemma download_url_grows: "grows st (snd (download_url cfg e url dir wm st))"
proof -
  have "grows st (snd (download_url_loop cfg e url dir wm 0 st))"
  proof (rule download_url_loop_rule [where P = "grows st" and Q = "\<lambda>res. grows st"])
    show "grows st st" by (rule grows_refl)
  next
    fix s and r :: response assume "grows st s"
    then have "grows st (count_status (status_code r) (snd (send e (GET url) s)))"
      by (simp add: grows_then grows_field_updates)
    then show "grows st (snd (save_page cfg e url dir wm r
                     (count_status (status_code r) (snd (send e (GET url) s)))))"
      using save_page_grows grows_trans by blast
  qed (simp_all add: grows_then grows_field_updates)
  then show ?thesis by (simp add: download_url_def)
qed

lemma download_each_grows:
  "grows st (snd (download_each cfg e dir wm urls rs st))"
proof (induction urls arbitrary: rs st)
  case Nil
  show ?case by (simp add: grows_refl)
next
  case (Cons u us)
  let ?s0 = "st\<lparr>all_urls := all_urls st @ [u]\<rparr>"
  let ?s1 = "snd (download_url cfg e u dir wm ?s0)"
  let ?s2 = "?s1\<lparr>request_count := Suc (request_count ?s1)\<rparr>"
  have "grows st ?s0" by (simp add: grows_field_updates grows_refl)
  moreover have "grows ?s0 ?s1" by (rule download_url_grows)
  ultimately have "grows st ?s2" using grows_trans grows_field_updates(4) by blast
  moreover have "grows ?s2 (snd (download_each cfg e dir wm us rs' ?s2))" for rs'
    by (rule Cons.IH)
  ultimately have "grows st (snd (download_each cfg e dir wm us rs' ?s2))" for rs'
    using grows_trans by blast
  then show ?case by (simp add: split_beta)
qed

lemma write_reports_grows: "grows st (write_reports cfg e dir n st)"
  by (simp add: write_reports_def Let_def grows_refl grows_then)

lemma download_all_grows: "grows st (snd (download_all cfg e urls dir wm st))"
proof -
  let ?dir = "path_join (sites_root e) (basename dir)"
  let ?s1 = "ensure_dir e st ?dir"
  let ?s2 = "?s1\<lparr>request_count := 0\<rparr>"
  let ?s3 = "if generate_status_report cfg then ensure_dir e ?s2 (path_join ?dir ''Reports'') else ?s2"
  have g3: "grows st ?s3" by (simp add: grows_then grows_field_updates grows_refl)
  have g4: "grows st (snd (download_each cfg e ?dir wm urls [] ?s3))"
    using g3 download_each_grows grows_trans by blast
  have "grows st (write_reports cfg e ?dir n (snd (download_each cfg e ?dir wm urls [] ?s3)))" for n
    using g4 write_reports_grows grows_trans by blast
  then show ?thesis by (simp add: download_all_def Let_def split_beta)
qed

lemma reaches_grows: "reaches cfg e st s \<Longrightarrow> grows st s"
proof (induction rule: reaches.induct)
  case reaches_now
  show ?case by (rule grows_refl)
next
  case (reaches_media s url site_dir base_url)
  then show ?case using download_media_grows grows_trans by blast
next
  case (reaches_page s url archive_dir with_media)
  then show ?case using download_url_grows grows_trans by blast
next
  case (reaches_batch s urls archive_dir with_media)
  then show ?case using download_all_grows grows_trans by blast
qed

text \<open>
  C7, as stated: for each resource key the media fetcher makes at most one network
  fetch in a run, and all pages that embed the resource refer to the same local path.
  A fetch that fails is not recorded. When the four attempts for page \<open>a.html\<close> are
  answered with 503, the page gets no local path for the image, and page \<open>b.html\<close>
  requests the same image again: five GET requests for one resource.
\<close>

theorem failed_asset_fetched_again:
  "fst (download_media default_config (env_of flaky_server no_media)
          ''https://example.com/img/logo.png'' ''/work/Sites/example''
          ''https://example.com/a.html'' (fresh_state (3/2))) = None
   \<and> fst (download_media default_config (env_of flaky_server no_media)
          ''https://example.com/img/logo.png'' ''/work/Sites/example''
          ''https://example.com/b.html''
          (snd (download_media default_config (env_of flaky_server no_media)
                  ''https://example.com/img/logo.png'' ''/work/Sites/example''
                  ''https://example.com/a.html'' (fresh_state (3/2)))))
     = Some (MediaDownloaded ''https://example.com/img/logo.png''
               ''/work/Sites/example/HTML/img/logo.png'' 3 ''image/png'')
   \<and> requests (snd (download_media default_config (env_of flaky_server no_media)
          ''https://example.com/img/logo.png'' ''/work/Sites/example''
          ''https://example.com/b.html''
          (snd (download_media default_config (env_of flaky_server no_media)
                  ''https://example.com/img/logo.png'' ''/work/Sites/example''
                  ''https://example.com/a.html'' (fresh_state (3/2))))))
     = [GET ''https://example.com/img/logo.png'', GET ''https://example.com/img/logo.png'',
        GET ''https://example.com/img/logo.png'', GET ''https://example.com/img/logo.png'',
        GET ''https://example.com/img/logo.png'']"
  by code_simp

text \<open>
  C7, amended: once \<open>download_media\<close> has returned a result for a URL (downloaded, or
  recognised as an existing identical file), every later call in the run for a URL with
  the same key (scheme, host and path) and of the page's domain returns \<open>exists\<close>
  with the path of that first result and leaves the whole state as it is: no request is
  sent and nothing is written. So a resource is fetched successfully at most once and
  all pages refer to one path.
\<close>

theorem recorded_asset_never_fetched_again:
  assumes first: "download_media cfg e url1 site_dir1 base1 st = (Some r1, st1)"
    and later: "reaches cfg e st1 st2"
    and same_key: "get_url_key url2 = get_url_key url1"
    and dom: "is_same_domain url2 base2"
  shows "download_media cfg e url2 site_dir2 base2 st2
           = (Some (MediaExists url2 (media_result_path r1)), st2)"
proof -
  have "downloaded_urls st1 (get_url_key url1) = Some (media_result_path r1)"
    using download_media_records [of cfg e url1 site_dir1 base1 st r1] first by simp
  moreover have "grows st1 st2" using later by (rule reaches_grows)
  ultimately have "downloaded_urls st2 (get_url_key url2) = Some (media_result_path r1)"
    using same_key by (simp add: grows_def)
  with dom show ?thesis by (rule download_media_hit)
qed

theorem recorded_asset_never_fetched_again_witness:
  "download_media default_config (env_of png_server no_media)
      ''https://example.com/img/logo.png?v=1'' ''/work/Sites/example''
      ''https://example.com/a.html'' (fresh_state (3/2))
     = (Some (MediaDownloaded ''https://example.com/img/logo.png?v=1''
                ''/work/Sites/example/HTML/img/logo.png'' 3 ''image/png''), logo_fetched)
   \<and> reaches default_config (env_of png_server no_media) logo_fetched style_fetched
   \<and> get_url_key ''https://example.com/img/logo.png?v=2''
       = get_url_key ''https://example.com/img/logo.png?v=1''
   \<and> is_same_domain ''https://example.com/img/logo.png?v=2'' ''https://www.example.com/b.html''
   \<and> download_media default_config (env_of png_server no_media)
        ''https://example.com/img/logo.png?v=2'' ''/work/Sites/example''
        ''https://www.example.com/b.html'' style_fetched
       = (Some (MediaExists ''https://example.com/img/logo.png?v=2''
                  ''/work/Sites/example/HTML/img/logo.png''), style_fetched)"
proof -
  have v: "fst (download_media default_config (env_of png_server no_media)
      ''https://example.com/img/logo.png?v=1'' ''/work/Sites/example''
      ''https://example.com/a.html'' (fresh_state (3/2)))
     = Some (MediaDownloaded ''https://example.com/img/logo.png?v=1''
                ''/work/Sites/example/HTML/img/logo.png'' 3 ''image/png'')"
    by code_simp
  have h1: "download_media default_config (env_of png_server no_media)
      ''https://example.com/img/logo.png?v=1'' ''/work/Sites/example''
      ''https://example.com/a.html'' (fresh_state (3/2))
     = (Some (MediaDownloaded ''https://example.com/img/logo.png?v=1''
                ''/work/Sites/example/HTML/img/logo.png'' 3 ''image/png''), logo_fetched)"
    using v by (simp add: logo_fetched_def prod_eq_iff)
  have h2: "reaches default_config (env_of png_server no_media) logo_fetched style_fetched"
    unfolding style_fetched_def by (rule reaches_media) (rule reaches_now)
  have h3: "get_url_key ''https://example.com/img/logo.png?v=2''
       = get_url_key ''https://example.com/img/logo.png?v=1''"
    by code_simp
  have h4: "is_same_domain ''https://example.com/img/logo.png?v=2'' ''https://www.example.com/b.html''"
    by code_simp
  show ?thesis
    using h1 h2 h3 h4
      recorded_asset_never_fetched_again [OF h1 h2 h3 h4, of "''/work/Sites/example''"]
    by (simp add: media_result_path_def)
qed

section \<open>Running a batch twice\<close>












lemma download_url_answers_ok:
  assumes ok: "answers_ok cfg e" and tries: "0 \<le> max_retries cfg"
  shows "\<exists>res. fst (download_url cfg e url dir wm st) = Some res"
proof -
  from ok obtain r where r: "server e (length (requests st)) (GET url) = Response r"
      "\<not> raises_for_status r" "status_code r \<notin> set (retry_status_codes cfg)"
    unfolding answers_ok_def by blast
  have f: "fst (send e (GET url) st) = Response r" using r(1) by (simp add: send_def)
  have le: "int 0 \<le> max_retries cfg" using tries by simp
  have nr: "\<not> (status_code r \<in> set (retry_status_codes cfg) \<and> int 0 < max_retries cfg)"
    using r(3) by simp
  have "download_url_loop cfg e url dir wm 0 st
          = save_page cfg e url dir wm r (count_status (status_code r) (snd (send e (GET url) st)))"
    by (rule loop_save [OF le f nr r(2)])
  then show ?thesis using save_page_some by (simp add: download_url_def)
qed





section \<open>What the local path keeps of the URL\<close>

lemma join_with_cons: "ws \<noteq> [] \<Longrightarrow> join_with sep (w # ws) = w @ sep @ join_with sep ws"
  by (cases ws) simp_all

lemma join_with_snoc: "xs \<noteq> [] \<Longrightarrow> join_with sep (xs @ [y]) = join_with sep xs @ sep @ y"
proof (induction xs)
  case Nil
  then show ?case by simp
next
  case (Cons x xs)
  show ?case
  proof (cases "xs = []")
    case True
    then show ?thesis by simp
  next
    case False
    then show ?thesis using Cons.IH by (simp add: join_with_cons)
  qed
qed

lemma join_with_split_on: "join_with [d] (split_on d s) = s"
proof (induction s)
  case Nil
  show ?case by simp
next
  case (Cons c cs)
  obtain w ws where w: "split_on d cs = w # ws"
    using split_on_nonempty [of d cs] by (cases "split_on d cs") auto
  show ?case
  proof (cases "c = d")
    case True
    then show ?thesis using Cons.IH w by simp
  next
    case False
    have "join_with [d] ((c # w) # ws) = c # join_with [d] (w # ws)"
      by (cases ws) simp_all
    then show ?thesis using False Cons.IH w by simp
  qed
qed

lemma join_with_last_extended:
  "xs \<noteq> [] \<Longrightarrow> join_with sep (butlast xs @ [last xs @ t]) = join_with sep xs @ t"
proof (induction xs)
  case Nil
  then show ?case by simp
next
  case (Cons x xs)
  show ?case
  proof (cases "xs = []")
    case True
    then show ?thesis by simp
  next
    case False
    then have "butlast xs @ [last xs @ t] \<noteq> []" by simp
    then show ?thesis using False Cons.IH by (simp add: join_with_cons)
  qed
qed

lemma last_join_with:
  "xs \<noteq> [] \<Longrightarrow> last xs \<noteq> [] \<Longrightarrow> last (join_with sep xs) = last (last xs)"
proof (induction xs)
  case Nil
  then show ?case by simp
next
  case (Cons x xs)
  show ?case
  proof (cases "xs = []")
    case True
    then show ?thesis by simp
  next
    case False
    then obtain ys y where ys: "xs = ys @ [y]" by (cases xs rule: rev_cases) auto
    then have y: "y \<noteq> []" using Cons.prems(2) False by simp
    have "join_with sep xs \<noteq> []"
    proof (cases "ys = []")
      case True
      then show ?thesis using ys y by simp
    next
      case False
      then show ?thesis using ys y by (simp add: join_with_snoc)
    qed
    then show ?thesis using False Cons by (simp add: join_with_cons)
  qed
qed

lemma path_join_plain:
  assumes "a \<noteq> []" "last a \<noteq> CHR ''/''" "p \<noteq> []" "hd p \<noteq> CHR ''/''"
  shows "path_join a p = a @ ''/'' @ p"
proof -
  have 1: "\<not> startswith p ''/''"
    using assms(3,4) by (cases p) (simp_all add: startswith_def)
  have "drop (length a - 1) a = [last a]"
    using assms(1) by (induction a rule: rev_induct) simp_all
  then have 2: "\<not> endswith a ''/''"
    using assms(2) by (simp add: endswith_def)
  show ?thesis using 1 2 assms(1) by (simp add: path_join_def)
qed

lemma path_join_all_plain:
  assumes "a \<noteq> []" "last a \<noteq> CHR ''/''" "ps \<noteq> []"
    and "\<forall>p \<in> set ps. p \<noteq> [] \<and> CHR ''/'' \<notin> set p"
  shows "path_join_all a ps = a @ ''/'' @ join_with ''/'' ps"
  using assms
proof (induction ps arbitrary: a)
  case Nil
  then show ?case by simp
next
  case (Cons p ps)
  have p: "p \<noteq> []" "CHR ''/'' \<notin> set p" using Cons.prems(4) by simp_all
  then have hp: "hd p \<noteq> CHR ''/''" by (cases p) auto
  have lp: "last p \<noteq> CHR ''/''" using p by (metis last_in_set)
  have j: "path_join a p = a @ ''/'' @ p"
    by (rule path_join_plain [OF Cons.prems(1,2) p(1) hp])
  show ?case
  proof (cases "ps = []")
    case True
    then show ?thesis using j by (simp add: path_join_all_def)
  next
    case False
    have "path_join_all (a @ ''/'' @ p) ps = (a @ ''/'' @ p) @ ''/'' @ join_with ''/'' ps"
      by (rule Cons.IH) (use p lp False Cons.prems(4) in simp_all)
    then show ?thesis using j False by (simp add: path_join_all_def join_with_cons)
  qed
qed

lemma html_dir_plain:
  "path_join dir ''HTML'' \<noteq> []" "last (path_join dir ''HTML'') \<noteq> CHR ''/''"
  by (simp_all add: path_join_def startswith_def)

lemma page_path_parts_joined:
  assumes "strip_char CHR ''/'' (url_path (urlparse url)) \<noteq> []"
  shows "join_with ''/'' (page_path_parts url)
         = strip_char CHR ''/'' (url_path (urlparse url))
           @ (if CHR ''.'' \<in> set (last (split_on CHR ''/''
                                     (strip_char CHR ''/'' (url_path (urlparse url)))))
              then [] else ''.html'')"
proof -
  let ?pth = "strip_char CHR ''/'' (url_path (urlparse url))"
  let ?parts = "split_on CHR ''/'' ?pth"
  have ne: "?parts \<noteq> []" by (rule split_on_nonempty)
  have j: "join_with ''/'' ?parts = ?pth" by (rule join_with_split_on)
  show ?thesis
  proof (cases "CHR ''.'' \<in> set (last ?parts)")
    case True
    then show ?thesis using assms j by (simp add: page_path_parts_def Let_def)
  next
    case False
    then show ?thesis
      using assms j join_with_last_extended [OF ne, of "''/''" "''.html''"]
      by (simp add: page_path_parts_def Let_def)
  qed
qed

lemma page_file_path_plain:
  assumes "strip_char CHR ''/'' (url_path (urlparse url)) \<noteq> []"
    and "[] \<notin> set (split_on CHR ''/'' (strip_char CHR ''/'' (url_path (urlparse url))))"
  shows "page_file_path dir url
         = path_join dir ''HTML'' @ ''/'' @ strip_char CHR ''/'' (url_path (urlparse url))
           @ (if CHR ''.'' \<in> set (last (split_on CHR ''/''
                                     (strip_char CHR ''/'' (url_path (urlparse url)))))
              then [] else ''.html'')"
proof -
  let ?pth = "strip_char CHR ''/'' (url_path (urlparse url))"
  let ?parts = "split_on CHR ''/'' ?pth"
  have ne: "?parts \<noteq> []" by (rule split_on_nonempty)
  have pne: "page_path_parts url \<noteq> []"
    using ne by (simp add: page_path_parts_def Let_def)
  have "seg \<noteq> []" if "seg \<in> set (page_path_parts url)" for seg
  proof -
    from that assms(1) have "seg \<in> set ?parts \<or> seg = last ?parts @ ''.html''"
      using in_set_butlastD [of seg ?parts]
      by (auto simp: page_path_parts_def Let_def split: if_splits)
    then show ?thesis using assms(2) by auto
  qed
  then have segs: "\<forall>p \<in> set (page_path_parts url). p \<noteq> [] \<and> CHR ''/'' \<notin> set p"
    using page_path_parts_clean [of _ url] by blast
  have "page_file_path dir url
          = path_join dir ''HTML'' @ ''/'' @ join_with ''/'' (page_path_parts url)"
    unfolding page_file_path_def
    by (rule path_join_all_plain [OF html_dir_plain pne segs])
  then show ?thesis using page_path_parts_joined [OF assms(1)] by simp
qed

lemma page_file_path_index:
  assumes "strip_char CHR ''/'' (url_path (urlparse url)) = []"
  shows "page_file_path dir url
         = path_join dir ''HTML'' @ ''/''
           @ replace_char CHR ''.'' CHR ''_'' (url_netloc (urlparse url)) @ ''_index.html''"
proof -
  let ?name = "replace_char CHR ''.'' CHR ''_'' (url_netloc (urlparse url)) @ ''_index.html''"
  have parts: "page_path_parts url = [?name]"
    using assms by (simp add: page_path_parts_def Let_def)
  have "CHR ''/'' \<notin> set ?name"
    using page_path_parts_clean [of ?name url] parts by simp
  then have segs: "\<forall>p \<in> set [?name]. p \<noteq> [] \<and> CHR ''/'' \<notin> set p" by simp
  have "path_join_all (path_join dir ''HTML'') [?name]
          = path_join dir ''HTML'' @ ''/'' @ join_with ''/'' [?name]"
    by (rule path_join_all_plain [OF html_dir_plain _ segs]) simp
  then show ?thesis by (simp add: page_file_path_def parts)
qed


lemma media_fetch_result_path:
  assumes "fst (media_fetch cfg e url fp n st) = Some r"
  shows "media_result_path r = fp"
proof -
  let ?Q = "\<lambda>out (s::run_state). \<forall>r. out = Some r \<longrightarrow> media_result_path r = fp"
  have "?Q (fst (media_fetch cfg e url fp n st)) (snd (media_fetch cfg e url fp n st))"
    by (rule media_fetch_rule [where P = "\<lambda>s. True" and Q = ?Q])
       (simp_all add: media_result_path_def)
  then show ?thesis using assms by simp
qed

lemma download_media_known_path:
  assumes "downloaded_urls st (get_url_key url) = Some known"
    and "download_media cfg e url site_dir base_url st = (Some r, st')"
  shows "media_result_path r = known"
  using assms by (auto simp: download_media_def media_result_path_def split: if_splits)

lemma splitext_stem_chars: "set (fst (splitext p)) \<subseteq> set p"
  using set_take_subset [of _ p] by (auto simp: splitext_def Let_def)

lemma download_media_new_path:
  assumes miss: "downloaded_urls st (get_url_key url) = None"
    and ne: "strip_char CHR ''/'' (url_path (urlparse url)) \<noteq> []"
    and segs: "[] \<notin> set (split_on CHR ''/'' (strip_char CHR ''/'' (url_path (urlparse url))))"
    and res: "download_media cfg e url site_dir base_url st = (Some r, st')"
  shows "media_result_path r
           = path_join site_dir ''HTML'' @ ''/'' @ strip_char CHR ''/'' (url_path (urlparse url))
       \<or> media_result_path r
           = path_join site_dir ''HTML'' @ ''/''
             @ take (length (strip_char CHR ''/'' (url_path (urlparse url)))
                     - length (last (split_on CHR ''/''
                                 (strip_char CHR ''/'' (url_path (urlparse url))))))
                 (strip_char CHR ''/'' (url_path (urlparse url)))
             @ fst (splitext (last (split_on CHR ''/''
                                 (strip_char CHR ''/'' (url_path (urlparse url))))))
             @ ''_'' @ md5_hex8 e url
             @ snd (splitext (last (split_on CHR ''/''
                                 (strip_char CHR ''/'' (url_path (urlparse url))))))"
proof -
  define html_dir where "html_dir = path_join site_dir ''HTML''"
  define st1 where "st1 = ensure_dir e st html_dir"
  define pth where "pth = strip_char CHR ''/'' (url_path (urlparse url))"
  define path_parts where "path_parts = split_on CHR ''/'' pth"
  define filename where
    "filename = (if pth = [] then ''media_'' @ hash_str e url else last path_parts)"
  define rel_path where
    "rel_path = (if pth \<noteq> [] \<and> length path_parts > 1
                 then path_join_all (hd path_parts) (tl (butlast path_parts)) else [])"
  define full_media_path where "full_media_path = path_join html_dir rel_path"
  define st2 where "st2 = (if rel_path \<noteq> [] then ensure_dir e st1 full_media_path else st1)"
  define file_path where
    "file_path = (if rel_path \<noteq> [] then path_join full_media_path filename
                  else path_join html_dir filename)"
  define renamed where
    "renamed = fst (splitext filename) @ ''_'' @ md5_hex8 e url @ snd (splitext filename)"
  define file_path' where
    "file_path' = (if rel_path \<noteq> [] then path_join full_media_path renamed
                   else path_join html_dir renamed)"
  have dom: "is_same_domain url base_url"
    using res by (auto simp: download_media_def split: if_splits)
  have unfold: "download_media cfg e url site_dir base_url st
      = (if path_exists e st2 file_path
         then (if fst (is_same_file e url file_path st2)
               then (Some (MediaExists url file_path),
                     (snd (is_same_file e url file_path st2))
                       \<lparr>downloaded_urls :=
                          (downloaded_urls (snd (is_same_file e url file_path st2)))
                            (get_url_key url \<mapsto> file_path)\<rparr>)
               else media_fetch cfg e url file_path' 0 (snd (is_same_file e url file_path st2)))
         else media_fetch cfg e url file_path 0 st2)"
    unfolding download_media_def Let_def html_dir_def st1_def pth_def path_parts_def
      filename_def rel_path_def full_media_path_def st2_def file_path_def renamed_def
      file_path'_def
    using dom miss
    by (simp add: split_beta split: bool.splits)
  have res': "fst (download_media cfg e url site_dir base_url st) = Some r"
    using res by simp
  have which: "media_result_path r = file_path \<or> media_result_path r = file_path'"
  proof (cases "path_exists e st2 file_path")
    case False
    then have "fst (media_fetch cfg e url file_path 0 st2) = Some r"
      using res' by (simp add: unfold)
    then show ?thesis using media_fetch_result_path by blast
  next
    case True
    show ?thesis
    proof (cases "fst (is_same_file e url file_path st2)")
      case True
      then have "r = MediaExists url file_path"
        using res' \<open>path_exists e st2 file_path\<close> by (simp add: unfold)
      then show ?thesis by (simp add: media_result_path_def)
    next
      case False
      then have "fst (media_fetch cfg e url file_path' 0 (snd (is_same_file e url file_path st2)))
                   = Some r"
        using res' \<open>path_exists e st2 file_path\<close> by (simp add: unfold)
      then show ?thesis using media_fetch_result_path by blast
    qed
  qed
  have pne: "pth \<noteq> []" using ne by (simp add: pth_def)
  have parts_ne: "path_parts \<noteq> []" unfolding path_parts_def by (rule split_on_nonempty)
  have seg: "p \<noteq> [] \<and> CHR ''/'' \<notin> set p" if "p \<in> set path_parts" for p
    using that segs split_on_no_sep [of p "CHR ''/''" pth]
    by (auto simp: path_parts_def pth_def)
  have fn: "filename = last path_parts" using pne by (simp add: filename_def)
  have fn_in: "filename \<in> set path_parts" using parts_ne fn by simp
  have fn_ne: "filename \<noteq> []" and fn_clean: "CHR ''/'' \<notin> set filename"
    using seg [OF fn_in] by simp_all
  have fn_hd: "hd filename \<noteq> CHR ''/''" using fn_ne fn_clean by (cases filename) auto
  have rn_ne: "renamed \<noteq> []" by (simp add: renamed_def)
  have rn_hd: "hd renamed \<noteq> CHR ''/''"
  proof (cases "fst (splitext filename)")
    case Nil
    then show ?thesis by (simp add: renamed_def)
  next
    case (Cons c cs)
    then have "c \<in> set filename" using splitext_stem_chars [of filename] by auto
    then have "c \<noteq> CHR ''/''" using fn_clean by auto
    then show ?thesis using Cons by (simp add: renamed_def)
  qed
  have joined: "join_with ''/'' path_parts = pth"
    unfolding path_parts_def by (rule join_with_split_on)
  note html = html_dir_plain [of site_dir, folded html_dir_def]
  have paths: "file_path = html_dir @ ''/'' @ pth
      \<and> file_path' = html_dir @ ''/'' @ take (length pth - length filename) pth @ renamed"
  proof (cases "length path_parts > 1")
    case False
    then have one: "path_parts = [filename]"
      using parts_ne fn by (cases path_parts) auto
    then have p: "pth = filename" using joined by simp
    have rel: "rel_path = []" using False by (simp add: rel_path_def)
    have "file_path = html_dir @ ''/'' @ filename"
      using rel path_join_plain [OF html fn_ne fn_hd] by (simp add: file_path_def)
    moreover have "file_path' = html_dir @ ''/'' @ renamed"
      using rel path_join_plain [OF html rn_ne rn_hd] by (simp add: file_path'_def)
    ultimately show ?thesis using p by simp
  next
    case True
    define init where "init = butlast path_parts"
    have init_ne: "init \<noteq> []"
      using True by (cases path_parts rule: rev_cases) (auto simp: init_def)
    have split: "path_parts = init @ [filename]"
      using parts_ne fn by (simp add: init_def)
    have init_seg: "\<forall>p \<in> set init. p \<noteq> [] \<and> CHR ''/'' \<notin> set p"
      using seg split by auto
    have hd_init: "hd path_parts = hd init" using init_ne split by (cases init) auto
    have init_eq: "init = hd init # tl init" using init_ne by simp
    have hd_seg: "hd init \<noteq> []" "CHR ''/'' \<notin> set (hd init)"
      using init_seg init_ne by (metis hd_in_set)+
    have hd_last: "last (hd init) \<noteq> CHR ''/''" using hd_seg by (metis last_in_set)
    have rel: "rel_path = join_with ''/'' init"
    proof (cases "tl init = []")
      case True
      then have "init = [hd init]" using init_eq by simp
      then have "join_with ''/'' init = hd init" by (metis join_with.simps(2))
      then show ?thesis
        using \<open>1 < length path_parts\<close> pne True hd_init
        by (simp add: rel_path_def init_def [symmetric] path_join_all_def)
    next
      case False
      have tl_seg: "\<forall>p \<in> set (tl init). p \<noteq> [] \<and> CHR ''/'' \<notin> set p"
        using init_seg init_ne by (metis list.set_sel(2))
      have "path_join_all (hd init) (tl init) = hd init @ ''/'' @ join_with ''/'' (tl init)"
        by (rule path_join_all_plain [OF hd_seg(1) hd_last False tl_seg])
      also have "\<dots> = join_with ''/'' (hd init # tl init)"
        using False by (simp add: join_with_cons)
      finally have "path_join_all (hd init) (tl init) = join_with ''/'' init"
        using init_eq by simp
      then show ?thesis
        using \<open>1 < length path_parts\<close> pne hd_init
        by (simp add: rel_path_def init_def [symmetric])
    qed
    have rel_starts: "rel_path = hd init @ drop (length (hd init)) rel_path"
    proof (cases "tl init = []")
      case True
      then have "init = [hd init]" using init_eq by simp
      then have "join_with ''/'' init = hd init" by (metis join_with.simps(2))
      then show ?thesis using rel by simp
    next
      case False
      then have "join_with ''/'' (hd init # tl init) = hd init @ ''/'' @ join_with ''/'' (tl init)"
        by (simp add: join_with_cons)
      then show ?thesis using rel init_eq by simp
    qed
    have rel_ne: "rel_path \<noteq> []" using rel_starts hd_seg(1) by auto
    have rel_hd: "hd rel_path \<noteq> CHR ''/''"
    proof -
      have "hd rel_path = hd (hd init)" using rel_starts hd_seg(1) by (metis hd_append2)
      moreover have "hd (hd init) \<in> set (hd init)" using hd_seg(1) by simp
      ultimately show ?thesis using hd_seg(2) by auto
    qed
    have last_init: "last init \<noteq> []" "CHR ''/'' \<notin> set (last init)"
      using init_seg init_ne by (metis last_in_set)+
    have rel_last: "last rel_path \<noteq> CHR ''/''"
    proof -
      have "last rel_path = last (last init)"
        unfolding rel by (rule last_join_with [OF init_ne last_init(1)])
      moreover have "last (last init) \<in> set (last init)" using last_init(1) by simp
      ultimately show ?thesis using last_init(2) by auto
    qed
    have full: "full_media_path = html_dir @ ''/'' @ rel_path"
      unfolding full_media_path_def by (rule path_join_plain [OF html rel_ne rel_hd])
    have full_ne: "full_media_path \<noteq> []" and full_last: "last full_media_path \<noteq> CHR ''/''"
      using full rel_ne rel_last by simp_all
    have p: "pth = rel_path @ ''/'' @ filename"
      using joined split rel join_with_snoc [OF init_ne, of "''/''" filename] by simp
    have "file_path = full_media_path @ ''/'' @ filename"
      using rel_ne path_join_plain [OF full_ne full_last fn_ne fn_hd] by (simp add: file_path_def)
    moreover have "file_path' = full_media_path @ ''/'' @ renamed"
      using rel_ne path_join_plain [OF full_ne full_last rn_ne rn_hd] by (simp add: file_path'_def)
    moreover have "take (length pth - length filename) pth = rel_path @ ''/''"
      using p by simp
    ultimately show ?thesis using full p by simp
  qed
  show ?thesis
    using which paths
    unfolding html_dir_def renamed_def fn path_parts_def pth_def by auto
qed

text \<open>
  C3, as stated: every URL is mapped to one path, which holds none of the characters
  \<open><>:"/\|?*\<close> inside a segment, with reserved names and trailing dots handled and
  long paths cut. The content fetcher takes the segments of the URL path as they are: a
  colon (also the one before a port), the characters \<open>< > | * " \<close> and the backslash,
  the names \<open>con\<close> and \<open>aux.txt\<close>, a trailing dot or space all end up in the path, and
  a path of 250 letters gives a file path of 280 characters. The media fetcher does the
  same, and the path it gives a URL depends on the disk: the same URL goes to
  \<open>logo.png\<close> on an empty disk and to \<open>logo_00000000.png\<close> when another file is there.
\<close>

theorem local_path_has_reserved_characters:
  "page_file_path ''/work/Sites/wiki'' ''https://en.wikipedia.org/wiki/Talk:Main_Page''
     = ''/work/Sites/wiki/HTML/wiki/Talk:Main_Page.html''
   \<and> page_path_parts ''http://localhost:8080/'' = [''localhost:8080_index.html'']
   \<and> page_path_parts (''https://example.com/a<b>/c|d*e'' @ [CHR 0x22, CHR 0x5C] @ ''f'')
     = [''a<b>'', ''c|d*e'' @ [CHR 0x22, CHR 0x5C] @ ''f.html'']
   \<and> page_path_parts ''https://example.com/con/aux.txt'' = [''con'', ''aux.txt'']
   \<and> page_path_parts ''https://example.com/a./b.txt '' = [''a.'', ''b.txt '']
   \<and> length (page_file_path ''/work/Sites/example''
                (''https://example.com/'' @ replicate 250 CHR ''a'')) = 280
   \<and> fst (download_media default_config (env_of png_server no_media)
            ''https://example.com/img/a:b*c.png'' ''/work/Sites/example''
            ''https://example.com/'' (fresh_state (3/2)))
     = Some (MediaDownloaded ''https://example.com/img/a:b*c.png''
               ''/work/Sites/example/HTML/img/a:b*c.png'' 3 ''image/png'')
   \<and> fst (download_media default_config (env_of gif_server no_media)
            ''https://www.example.com/img/logo.png'' ''/work/Sites/example''
            ''https://example.com/'' (fresh_state (3/2)))
     = Some (MediaDownloaded ''https://www.example.com/img/logo.png''
               ''/work/Sites/example/HTML/img/logo.png'' 6 ''image/gif'')
   \<and> fst (download_media default_config (env_of gif_server no_media)
            ''https://www.example.com/img/logo.png'' ''/work/Sites/example''
            ''https://example.com/'' logo_fetched)
     = Some (MediaDownloaded ''https://www.example.com/img/logo.png''
               ''/work/Sites/example/HTML/img/logo_00000000.png'' 6 ''image/gif'')"
proof -
  have 1: "page_file_path ''/work/Sites/wiki'' ''https://en.wikipedia.org/wiki/Talk:Main_Page''
     = ''/work/Sites/wiki/HTML/wiki/Talk:Main_Page.html''"
    by code_simp
  have 2: "page_path_parts ''http://localhost:8080/'' = [''localhost:8080_index.html'']"
    by code_simp
  have 3: "page_path_parts (''https://example.com/a<b>/c|d*e'' @ [CHR 0x22, CHR 0x5C] @ ''f'')
     = [''a<b>'', ''c|d*e'' @ [CHR 0x22, CHR 0x5C] @ ''f.html'']"
    by code_simp
  have 4: "page_path_parts ''https://example.com/con/aux.txt'' = [''con'', ''aux.txt'']"
    by code_simp
  have 5: "page_path_parts ''https://example.com/a./b.txt '' = [''a.'', ''b.txt '']"
    by code_simp
  have 6: "length (page_file_path ''/work/Sites/example''
                (''https://example.com/'' @ replicate 250 CHR ''a'')) = 280"
    by code_simp
  have 7: "fst (download_media default_config (env_of png_server no_media)
            ''https://example.com/img/a:b*c.png'' ''/work/Sites/example''
            ''https://example.com/'' (fresh_state (3/2)))
     = Some (MediaDownloaded ''https://example.com/img/a:b*c.png''
               ''/work/Sites/example/HTML/img/a:b*c.png'' 3 ''image/png'')"
    by code_simp
  have 8: "fst (download_media default_config (env_of gif_server no_media)
            ''https://www.example.com/img/logo.png'' ''/work/Sites/example''
            ''https://example.com/'' (fresh_state (3/2)))
     = Some (MediaDownloaded ''https://www.example.com/img/logo.png''
               ''/work/Sites/example/HTML/img/logo.png'' 6 ''image/gif'')"
    by code_simp
  have 9: "fst (download_media default_config (env_of gif_server no_media)
            ''https://www.example.com/img/logo.png'' ''/work/Sites/example''
            ''https://example.com/'' logo_fetched)
     = Some (MediaDownloaded ''https://www.example.com/img/logo.png''
               ''/work/Sites/example/HTML/img/logo_00000000.png'' 6 ''image/gif'')"
    by code_simp
  show ?thesis using 1 2 3 4 5 6 7 8 9 by (intro conjI)
qed

text \<open>
  C3, amended. Pages: a result of \<open>_download_url\<close> names the path \<open>page_file_path\<close>
  computes from the archive directory and the URL, whatever the state of the run and
  the answers of the server. No segment below \<open>HTML\<close> contains \<open>/\<close> or \<open>?\<close>. With
  \<open>pth\<close> the URL path without its leading and trailing slashes: when \<open>pth\<close> is not
  empty, the segments joined by \<open>/\<close> are \<open>pth\<close> itself, followed by \<open>.html\<close> when the
  last segment has no dot; when moreover no segment is empty, the file path is the
  \<open>HTML\<close> directory, \<open>/\<close>, \<open>pth\<close> and that suffix; when \<open>pth\<close> is empty the file
  is named after the host, its dots replaced by underscores, with \<open>_index.html\<close>. So
  nothing is replaced, cut or hashed. Media: the path of a result of \<open>download_media\<close>
  is the recorded one when the key of the URL is in \<open>downloaded_urls\<close>; otherwise, for
  a path without empty segments, it is the \<open>HTML\<close> directory, \<open>/\<close> and \<open>pth\<close>, or that
  path with \<open>_\<close> and the hash digits of the URL before the extension.
\<close>

theorem local_path_keeps_url_path:
  "(let pth = strip_char CHR ''/'' (url_path (urlparse url));
        filename = last (split_on CHR ''/'' pth);
        html_dir = path_join archive_dir ''HTML''
    in (\<forall>res. fst (download_url cfg e url archive_dir with_media st) = Some res
               \<longrightarrow> result_file_path res = page_file_path archive_dir url)
     \<and> (\<forall>seg \<in> set (page_path_parts url). CHR ''/'' \<notin> set seg \<and> CHR ''?'' \<notin> set seg)
     \<and> (pth \<noteq> [] \<longrightarrow>
           join_with ''/'' (page_path_parts url)
             = pth @ (if CHR ''.'' \<in> set filename then [] else ''.html''))
     \<and> (pth \<noteq> [] \<and> [] \<notin> set (split_on CHR ''/'' pth) \<longrightarrow>
           page_file_path archive_dir url
             = html_dir @ ''/'' @ pth @ (if CHR ''.'' \<in> set filename then [] else ''.html''))
     \<and> (pth = [] \<longrightarrow>
           page_file_path archive_dir url
             = html_dir @ ''/'' @ replace_char CHR ''.'' CHR ''_'' (url_netloc (urlparse url))
               @ ''_index.html'')
     \<and> (\<forall>r st'. download_media cfg e url archive_dir base_url st = (Some r, st') \<longrightarrow>
           (case downloaded_urls st (get_url_key url) of
              Some known \<Rightarrow> media_result_path r = known
            | None \<Rightarrow>
                pth \<noteq> [] \<and> [] \<notin> set (split_on CHR ''/'' pth) \<longrightarrow>
                  media_result_path r = html_dir @ ''/'' @ pth
                \<or> media_result_path r
                    = html_dir @ ''/'' @ take (length pth - length filename) pth
                      @ fst (splitext filename) @ ''_'' @ md5_hex8 e url
                      @ snd (splitext filename))))"
proof -
  let ?pth = "strip_char CHR ''/'' (url_path (urlparse url))"
  let ?filename = "last (split_on CHR ''/'' ?pth)"
  let ?html = "path_join archive_dir ''HTML''"
  have 1: "\<forall>res. fst (download_url cfg e url archive_dir with_media st) = Some res
               \<longrightarrow> result_file_path res = page_file_path archive_dir url"
    using download_url_result_path [of cfg e url archive_dir with_media st] by blast
  have 2: "\<forall>seg \<in> set (page_path_parts url). CHR ''/'' \<notin> set seg \<and> CHR ''?'' \<notin> set seg"
    using page_path_parts_clean [of _ url] by blast
  have 3: "?pth \<noteq> [] \<longrightarrow>
           join_with ''/'' (page_path_parts url)
             = ?pth @ (if CHR ''.'' \<in> set ?filename then [] else ''.html'')"
    using page_path_parts_joined [of url] by blast
  have 4: "?pth \<noteq> [] \<and> [] \<notin> set (split_on CHR ''/'' ?pth) \<longrightarrow>
           page_file_path archive_dir url
             = ?html @ ''/'' @ ?pth @ (if CHR ''.'' \<in> set ?filename then [] else ''.html'')"
    using page_file_path_plain [of url archive_dir] by blast
  have 5: "?pth = [] \<longrightarrow>
           page_file_path archive_dir url
             = ?html @ ''/'' @ replace_char CHR ''.'' CHR ''_'' (url_netloc (urlparse url))
               @ ''_index.html''"
    using page_file_path_index [of url archive_dir] by blast
  have 6: "\<forall>r st'. download_media cfg e url archive_dir base_url st = (Some r, st') \<longrightarrow>
           (case downloaded_urls st (get_url_key url) of
              Some known \<Rightarrow> media_result_path r = known
            | None \<Rightarrow>
                ?pth \<noteq> [] \<and> [] \<notin> set (split_on CHR ''/'' ?pth) \<longrightarrow>
                  media_result_path r = ?html @ ''/'' @ ?pth
                \<or> media_result_path r
                    = ?html @ ''/'' @ take (length ?pth - length ?filename) ?pth
                      @ fst (splitext ?filename) @ ''_'' @ md5_hex8 e url
                      @ snd (splitext ?filename))"
  proof (intro allI impI)
    fix r st'
    assume res: "download_media cfg e url archive_dir base_url st = (Some r, st')"
    show "case downloaded_urls st (get_url_key url) of
              Some known \<Rightarrow> media_result_path r = known
            | None \<Rightarrow>
                ?pth \<noteq> [] \<and> [] \<notin> set (split_on CHR ''/'' ?pth) \<longrightarrow>
                  media_result_path r = ?html @ ''/'' @ ?pth
                \<or> media_result_path r
                    = ?html @ ''/'' @ take (length ?pth - length ?filename) ?pth
                      @ fst (splitext ?filename) @ ''_'' @ md5_hex8 e url
                      @ snd (splitext ?filename)"
    proof (cases "downloaded_urls st (get_url_key url)")
      case (Some known)
      then show ?thesis using download_media_known_path [OF Some res] by simp
    next
      case None
      show ?thesis
        using download_media_new_path [OF None _ _ res] None by auto
    qed
  qed
  from 1 2 3 4 5 6 show ?thesis unfolding Let_def by (intro conjI)
qed


theorem local_path_keeps_url_path_witness:
  "strip_char CHR ''/'' (url_path (urlparse ''https://example.com/img/a:b*c.png''))
     = ''img/a:b*c.png''
   \<and> split_on CHR ''/'' ''img/a:b*c.png'' = [''img'', ''a:b*c.png'']
   \<and> map_option result_file_path
         (fst (download_url default_config (env_of png_server no_media)
                 ''https://example.com/img/a:b*c.png'' ''/work/Sites/example'' False
                 (fresh_state (3/2))))
     = Some ''/work/Sites/example/HTML/img/a:b*c.png''
   \<and> page_file_path ''/work/Sites/example'' ''https://example.com/img/a:b*c.png''
     = ''/work/Sites/example/HTML/img/a:b*c.png''
   \<and> join_with ''/'' (page_path_parts ''https://example.com/img/a:b*c.png'')
     = ''img/a:b*c.png''
   \<and> downloaded_urls (fresh_state (3/2)) (get_url_key ''https://example.com/img/a:b*c.png'')
     = None
   \<and> fst (download_media default_config (env_of png_server no_media)
            ''https://example.com/img/a:b*c.png'' ''/work/Sites/example''
            ''https://example.com/'' (fresh_state (3/2)))
     = Some (MediaDownloaded ''https://example.com/img/a:b*c.png''
               ''/work/Sites/example/HTML/img/a:b*c.png'' 3 ''image/png'')
   \<and> strip_char CHR ''/'' (url_path (urlparse ''https://example.com/'')) = []
   \<and> page_file_path ''/work/Sites/example'' ''https://example.com/''
     = ''/work/Sites/example/HTML/example_com_index.html''"
proof -
  have p: "strip_char CHR ''/'' (url_path (urlparse ''https://example.com/img/a:b*c.png''))
     = ''img/a:b*c.png''"
    by code_simp
  have s: "split_on CHR ''/'' ''img/a:b*c.png'' = [''img'', ''a:b*c.png'']"
    by code_simp
  have k: "downloaded_urls (fresh_state (3/2)) (get_url_key ''https://example.com/img/a:b*c.png'')
     = None"
    by (simp add: fresh_state_def)
  have m: "fst (download_media default_config (env_of png_server no_media)
            ''https://example.com/img/a:b*c.png'' ''/work/Sites/example''
            ''https://example.com/'' (fresh_state (3/2)))
     = Some (MediaDownloaded ''https://example.com/img/a:b*c.png''
               ''/work/Sites/example/HTML/img/a:b*c.png'' 3 ''image/png'')"
    by code_simp
  have i: "strip_char CHR ''/'' (url_path (urlparse ''https://example.com/'')) = []"
    by code_simp
  have h: "path_join ''/work/Sites/example'' ''HTML'' = ''/work/Sites/example/HTML''"
    by code_simp
  have n: "replace_char CHR ''.'' CHR ''_'' (url_netloc (urlparse ''https://example.com/''))
             = ''example_com''"
    by code_simp
  note a = local_path_keeps_url_path
      [where url = "''https://example.com/img/a:b*c.png''" and cfg = default_config
         and e = "env_of png_server no_media" and archive_dir = "''/work/Sites/example''"
         and with_media = False and st = "fresh_state (3/2)"
         and base_url = "''https://example.com/''"]
  note b = local_path_keeps_url_path
      [where url = "''https://example.com/''" and cfg = default_config
         and e = "env_of png_server no_media" and archive_dir = "''/work/Sites/example''"
         and with_media = False and st = "fresh_state (3/2)"
         and base_url = "''https://example.com/''"]
  have a4: "page_file_path ''/work/Sites/example'' ''https://example.com/img/a:b*c.png''
     = ''/work/Sites/example/HTML/img/a:b*c.png''"
    using a p s h by (simp add: Let_def)
  have a3: "join_with ''/'' (page_path_parts ''https://example.com/img/a:b*c.png'')
     = ''img/a:b*c.png''"
    using a p s by (simp add: Let_def)
  have b5: "page_file_path ''/work/Sites/example'' ''https://example.com/''
     = ''/work/Sites/example/HTML/example_com_index.html''"
    using b i h n by (simp add: Let_def)
  have ok: "answers_ok default_config (env_of png_server no_media)"
    by (simp add: answers_ok_def env_of_def png_server_def ok_response_def
                  raises_for_status_def default_config_def)
  have tries: "0 \<le> max_retries default_config" by (simp add: default_config_def)
  from download_url_answers_ok [OF ok tries]
  obtain res where res: "fst (download_url default_config (env_of png_server no_media)
                 ''https://example.com/img/a:b*c.png'' ''/work/Sites/example'' False
                 (fresh_state (3/2))) = Some res"
    by blast
  have "result_file_path res
          = page_file_path ''/work/Sites/example'' ''https://example.com/img/a:b*c.png''"
    using a res by (simp add: Let_def)
  then have d: "map_option result_file_path
         (fst (download_url default_config (env_of png_server no_media)
                 ''https://example.com/img/a:b*c.png'' ''/work/Sites/example'' False
                 (fresh_state (3/2))))
     = Some ''/work/Sites/example/HTML/img/a:b*c.png''"
    using res a4 by simp
  from p s d a4 a3 k m i b5 show ?thesis by (intro conjI)
qed

end
